theory Spec2Isabelle
  imports Main "HOL-Library.Word"
begin

section \<open>StoryTime TTS: the page generation pipeline of \<^verbatim>\<open>src/App.tsx\<close>\<close>

subsection \<open>JavaScript strings\<close>

text \<open>
  A JavaScript string is a sequence of UTF-16 code units. \<^verbatim>\<open>length\<close>,
  \<^verbatim>\<open>slice\<close>, \<^verbatim>\<open>trim\<close> and a regular expression without the
  \<^verbatim>\<open>u\<close> flag all work on code units, so the model does too.
  \<open>js\<close> writes an ASCII literal as such a string.
\<close>

type_synonym jschar = "16 word"
type_synonym jsstring = "jschar list"

definition js :: "string \<Rightarrow> jsstring" where
  "js s = map (\<lambda>c. of_nat (of_char c)) s"

text \<open>
  \<^verbatim>\<open>\s\<close> of a regular expression and the characters removed by
  \<^verbatim>\<open>String.prototype.trim\<close> are the same set: ECMAScript's WhiteSpace
  (TAB, VT, FF, ZWNBSP and the Unicode space separators) and LineTerminator
  (LF, CR, LS, PS).
\<close>

definition is_space :: "jschar \<Rightarrow> bool" where
  "is_space c \<longleftrightarrow>
     c = 0x0009 \<or> c = 0x000A \<or> c = 0x000B \<or> c = 0x000C \<or> c = 0x000D \<or> c = 0x0020 \<or>
     c = 0x00A0 \<or> c = 0x1680 \<or> (0x2000 \<le> c \<and> c \<le> 0x200A) \<or> c = 0x2028 \<or>
     c = 0x2029 \<or> c = 0x202F \<or> c = 0x205F \<or> c = 0x3000 \<or> c = 0xFEFF"

text \<open>\<^verbatim>\<open>\d\<close> is \<^verbatim>\<open>[0-9]\<close>.\<close>

definition is_digit :: "jschar \<Rightarrow> bool" where
  "is_digit c \<longleftrightarrow> 0x0030 \<le> c \<and> c \<le> 0x0039"

text \<open>
  A letter of the pattern under the \<^verbatim>\<open>i\<close> flag. Without the
  \<^verbatim>\<open>u\<close> flag a code unit of 128 or more is never folded to an ASCII
  letter, so an ASCII letter matches its two cases only. \<open>up\<close> is the code
  unit of the upper-case letter.
\<close>

definition ci_letter :: "jschar \<Rightarrow> jschar \<Rightarrow> bool" where
  "ci_letter up c \<longleftrightarrow> c = up \<or> c = up + 0x0020"

text \<open>\<^verbatim>\<open>String.prototype.trim\<close>.\<close>

definition trim :: "jsstring \<Rightarrow> jsstring" where
  "trim s = rev (dropWhile is_space (rev (dropWhile is_space s)))"

subsection \<open>The marker pattern \<^verbatim>\<open>/Page\s+\d+/i\<close>\<close>

text \<open>
  \<open>match_marker s\<close> matches the pattern at the start of \<open>s\<close> and returns
  what follows the match. Both quantifiers are greedy; a white-space character is never
  a digit, so giving back white space cannot turn a failure into a match and the greedy
  match is the only one.
\<close>

definition match_marker :: "jsstring \<Rightarrow> jsstring option" where
  "match_marker s =
     (case s of
        p # a # g # e # r \<Rightarrow>
          if ci_letter 0x0050 p \<and> ci_letter 0x0041 a \<and> ci_letter 0x0047 g \<and> ci_letter 0x0045 e
             \<and> takeWhile is_space r \<noteq> []
             \<and> takeWhile is_digit (dropWhile is_space r) \<noteq> []
          then Some (dropWhile is_digit (dropWhile is_space r))
          else None
      | _ \<Rightarrow> None)"

lemma match_marker_shorter: "match_marker s = Some r \<Longrightarrow> length r < length s"
proof -
  assume m: "match_marker s = Some r"
  then obtain p a g e t where s: "s = p # a # g # e # t"
    and r: "r = dropWhile is_digit (dropWhile is_space t)"
    by (auto simp: match_marker_def split: list.splits if_splits)
  have "length r \<le> length (dropWhile is_space t)"
    unfolding r by (rule length_dropWhile_le)
  also have "\<dots> \<le> length t"
    by (rule length_dropWhile_le)
  finally show ?thesis by (simp add: s)
qed

text \<open>
  \<^verbatim>\<open>String.prototype.split\<close> with a regular expression that cannot match
  the empty string: scan from the left; where the pattern matches, close the current
  fragment and go on after the match; elsewhere move one code unit on. \<open>acc\<close> is the
  fragment read so far. The empty string gives one empty fragment.
\<close>

function split_marker :: "jsstring \<Rightarrow> jsstring \<Rightarrow> jsstring list" where
  "split_marker acc [] = [acc]"
| "split_marker acc (c # cs) =
     (case match_marker (c # cs) of
        Some r \<Rightarrow> acc # split_marker [] r
      | None \<Rightarrow> split_marker (acc @ [c]) cs)"
  by pat_completeness auto
termination
  by (relation "measure (\<lambda>(acc, s). length s)") (auto dest: match_marker_shorter)

text \<open>
  Line 42: \<^verbatim>\<open>text.split(/Page\s+\d+/i).filter(p => p.trim().length > 0)\<close>.
\<close>

definition parts :: "jsstring \<Rightarrow> jsstring list" where
  "parts text = filter (\<lambda>p. length (trim p) > 0) (split_marker [] text)"

subsection \<open>Data (\<^verbatim>\<open>src/types.ts\<close>)\<close>

datatype Emotion = Calm | Happy | Sad | Shy | Gentle | Excited
datatype Tone = Soft | Warm | Friendly
datatype Speed = Slow | Normal | Fast

text \<open>\<open>id'\<close> is the field \<^verbatim>\<open>id\<close>; below, \<open>total'\<close> is the field \<^verbatim>\<open>total\<close> and \<open>file'\<close> the state variable \<^verbatim>\<open>file\<close>.\<close>

record StoryPage =
  id' :: nat
  content :: jsstring

record TTSConfig =
  emotion :: Emotion
  tone :: Tone
  speed :: Speed

text \<open>
  A \<^verbatim>\<open>Blob\<close> is its bytes. An object URL is a string the browser makes up,
  different at every call of \<^verbatim>\<open>URL.createObjectURL\<close>; the model keeps the
  number of the call that made it.
\<close>

type_synonym blob = "8 word list"
type_synonym url = nat

record GeneratedAudio =
  pageId :: nat
  blob :: blob
  url :: url
  filename :: jsstring

text \<open>
  The selected \<^verbatim>\<open>File\<close>: its name and what \<^verbatim>\<open>text()\<close> settles
  to, \<open>None\<close> when the promise rejects.
\<close>

datatype File = File (file_name: jsstring) (file_text: "jsstring option")

record Progress =
  current :: nat
  total' :: nat

text \<open>The component's state, lines 27 to 37.\<close>

record app_state =
  file' :: "File option"
  pages :: "StoryPage list"
  config :: TTSConfig
  isProcessing :: bool
  results :: "GeneratedAudio list"
  error :: "jsstring option"
  progress :: Progress

subsection \<open>The collaborators\<close>

text \<open>
  \<^verbatim>\<open>ttsService.generateSpeech\<close> lives in \<^verbatim>\<open>services/geminiService\<close>,
  outside the pipeline, and is a parameter of the model: the answer to the \<open>n\<close>-th
  call (counted from 0 over the whole session) with a text and a configuration is either
  a rejection or the audio. Any sequence of answers a real service gives is one such
  function.

  A promise can reject with any value (\<^verbatim>\<open>err: any\<close> in line 86). The handlers
  only ever read \<^verbatim>\<open>err.message\<close>: on \<^verbatim>\<open>null\<close> and
  \<^verbatim>\<open>undefined\<close> that read itself throws; on every other value it gives a
  non-empty string, or something that \<^verbatim>\<open>||\<close> takes for false (a missing
  property, the empty string), here \<open>None\<close> or \<open>Some []\<close>.
\<close>

datatype thrown = Nullish | Thrown "jsstring option"

type_synonym service = "nat \<Rightarrow> jsstring \<Rightarrow> TTSConfig \<Rightarrow> thrown + blob"

text \<open>
  What the browser holds besides the component's state: the log of synthesis calls, each
  with the state the component showed while the call was pending; the object URLs that
  have been created and not revoked; the URLs handed to \<^verbatim>\<open>new Audio(url).play()\<close>.
\<close>

record call =
  call_text :: jsstring
  call_config :: TTSConfig
  call_state :: app_state

record world =
  calls :: "call list"
  next_url :: nat
  live :: "url list"
  played :: "url list"

definition generateSpeech ::
  "service \<Rightarrow> jsstring \<Rightarrow> TTSConfig \<Rightarrow> app_state \<Rightarrow> world \<Rightarrow> (thrown + blob) \<times> world" where
  "generateSpeech gen t c s w =
     (gen (length (calls w)) t c,
      w\<lparr>calls := calls w @ [\<lparr>call_text = t, call_config = c, call_state = s\<rparr>]\<rparr>)"

definition createObjectURL :: "blob \<Rightarrow> world \<Rightarrow> url \<times> world" where
  "createObjectURL b w = (next_url w, w\<lparr>next_url := Suc (next_url w), live := live w @ [next_url w]\<rparr>)"

definition play :: "url \<Rightarrow> world \<Rightarrow> world" where
  "play u w = w\<lparr>played := played w @ [u]\<rparr>"

subsection \<open>\<^verbatim>\<open>parseFile\<close>, lines 39 to 56\<close>

text \<open>Lines 44 to 47: \<^verbatim>\<open>parts.map((content, index) => ({id: index + 1, content: content.trim()}))\<close>.\<close>

definition newPages :: "jsstring \<Rightarrow> StoryPage list" where
  "newPages text =
     map (\<lambda>(content, index). \<lparr>id' = index + 1, content = trim content\<rparr>)
         (zip (parts text) [0 ..< length (parts text)])"

definition parseFile :: "File \<Rightarrow> world \<times> app_state \<Rightarrow> world \<times> app_state" where
  "parseFile selectedFile ws =
     (case ws of (w, s) \<Rightarrow>
        (case file_text selectedFile of
           Some text \<Rightarrow>
             (w, s\<lparr>pages := newPages text, file' := Some selectedFile, results := [], error := None\<rparr>)
         | None \<Rightarrow>
             (w, s\<lparr>error := Some (js ''Failed to read the file. Please ensure it is a valid text file.'')\<rparr>)))"

subsection \<open>\<^verbatim>\<open>reset\<close>, lines 116 to 122\<close>

definition reset :: "world \<times> app_state \<Rightarrow> world \<times> app_state" where
  "reset ws =
     (case ws of (w, s) \<Rightarrow>
        (w, s\<lparr>file' := None, pages := [], results := [], error := None,
              progress := \<lparr>current = 0, total' = 0\<rparr>\<rparr>))"

subsection \<open>\<^verbatim>\<open>isComplete\<close>, line 124, and what is rendered\<close>

definition isComplete :: "app_state \<Rightarrow> bool" where
  "isComplete s \<longleftrightarrow> length (results s) > 0 \<and> length (results s) = length (pages s) \<and> \<not> isProcessing s"

text \<open>
  Line 162: the panel with the buttons that call \<^verbatim>\<open>generateAll\<close> and
  \<^verbatim>\<open>previewSample\<close> is rendered under this condition only.
\<close>

definition showsGenerate :: "app_state \<Rightarrow> bool" where
  "showsGenerate s \<longleftrightarrow>
     file' s \<noteq> None \<and> length (pages s) > 0 \<and> length (results s) = 0 \<and> \<not> isProcessing s"

text \<open>
  \<^verbatim>\<open>reset\<close> is on two buttons: the one of line 232, in the panel of line 162,
  and the one of line 305, in the block of lines 259 and 277, rendered whenever
  \<^verbatim>\<open>results\<close> is not empty.
\<close>

definition showsReset :: "app_state \<Rightarrow> bool" where
  "showsReset s \<longleftrightarrow> showsGenerate s \<or> (isProcessing s \<or> length (results s) > 0) \<and> length (results s) > 0"

subsection \<open>The handlers that run during a run\<close>

text \<open>
  While \<^verbatim>\<open>generateAll\<close> waits for a synthesis call, other handlers can run:
  the controls rendered while \<^verbatim>\<open>isProcessing\<close> is true are the Reset button
  (line 305, in the block of line 277), after a reset the file input (line 146), and the
  button that dismisses the error (line 141). The panel of line 162 with the Generate and
  Preview buttons and the voice controls is not rendered then, so no synthesis call is
  started meanwhile; but a preview that was started just before the run can get its answer
  during it, and then lines 99 to 103 run: on success a new object URL is made and played,
  on failure the error is set. A file read that was started earlier can end at any time.
  A click on Reset does something only where one of its buttons is rendered.
\<close>

datatype event = Reset | Load File | DismissError | PreviewSettles "thrown + blob"

definition handle :: "event \<Rightarrow> world \<times> app_state \<Rightarrow> world \<times> app_state" where
  "handle e ws =
     (case e of
        Reset \<Rightarrow> (if showsReset (snd ws) then reset ws else ws)
      | Load selectedFile \<Rightarrow> parseFile selectedFile ws
      | DismissError \<Rightarrow> (case ws of (w, s) \<Rightarrow> (w, s\<lparr>error := None\<rparr>))
      | PreviewSettles answer \<Rightarrow>
          (case ws of (w, s) \<Rightarrow>
             (case answer of
                Inl err \<Rightarrow> (w, s\<lparr>error := Some (js ''Failed to preview audio.'')\<rparr>)
              | Inr b \<Rightarrow> (case createObjectURL b w of (u, w1) \<Rightarrow> (play u w1, s)))))"

text \<open>
  The handlers that run while one call is pending are the head of \<open>evs\<close>; a list
  that has run out means that nothing more is clicked.
\<close>

definition during :: "event list list \<Rightarrow> event list" where
  "during evs = (case evs of [] \<Rightarrow> [] | es # _ \<Rightarrow> es)"

subsection \<open>\<^verbatim>\<open>generateAll\<close>, lines 64 to 92\<close>

text \<open>Decimal digits of a page number, as the template literal prints it.\<close>

fun decimal :: "nat \<Rightarrow> jsstring" where
  "decimal n = (if n < 10 then [of_nat (48 + n)] else decimal (n div 10) @ [of_nat (48 + n mod 10)])"

declare decimal.simps [simp del]

text \<open>Lines 75 to 80.\<close>

definition newResult :: "StoryPage \<Rightarrow> blob \<Rightarrow> url \<Rightarrow> GeneratedAudio" where
  "newResult page b u =
     \<lparr>pageId = id' page, blob = b, url = u, filename = js ''Page_'' @ decimal (id' page) @ js ''.wav''\<rparr>"

text \<open>
  The \<^verbatim>\<open>for\<close> loop of lines 72 to 85 over the pages and the configuration the
  handler closed over. Each turn makes its call, then the handlers of \<open>during evs\<close>
  run while the call is pending, then the answer comes. On a rejection the loop ends with
  \<open>Some err\<close>: the \<^verbatim>\<open>await\<close> throws and the rest of the loop is skipped.
  On success the two functional updates of lines 83 and 84 apply to the state as those
  handlers left it, and the next call is made in the same turn of the event loop.
\<close>

fun run_pages ::
  "service \<Rightarrow> TTSConfig \<Rightarrow> StoryPage list \<Rightarrow> event list list \<Rightarrow> world \<times> app_state
     \<Rightarrow> (world \<times> app_state) \<times> thrown option" where
  "run_pages gen cfg [] evs (w, s) = ((w, s), None)"
| "run_pages gen cfg (page # rest) evs (w, s) =
     (case generateSpeech gen (content page) cfg s w of
        (answer, w1) \<Rightarrow>
          (case fold handle (during evs) (w1, s) of
             (w2, s2) \<Rightarrow>
               (case answer of
                  Inl err \<Rightarrow> ((w2, s2), Some err)
                | Inr b \<Rightarrow>
                    (case createObjectURL b w2 of
                       (u, w3) \<Rightarrow>
                         run_pages gen cfg rest (tl evs)
                           (w3, s2\<lparr>results := results s2 @ [newResult page b u],
                                    progress := (progress s2)\<lparr>current := current (progress s2) + 1\<rparr>\<rparr>)))))"

text \<open>
  Lines 86 to 88. \<^verbatim>\<open>err.message || "An error occurred during audio generation."\<close>
  is the message when it is a non-empty string and the fixed text otherwise. On
  \<^verbatim>\<open>null\<close> and \<^verbatim>\<open>undefined\<close> reading \<^verbatim>\<open>err.message\<close>
  throws inside the \<^verbatim>\<open>catch\<close>, before \<^verbatim>\<open>setError\<close> is reached.
\<close>

definition message_or :: "jsstring option \<Rightarrow> jsstring \<Rightarrow> jsstring" where
  "message_or m d = (case m of None \<Rightarrow> d | Some t \<Rightarrow> if t = [] then d else t)"

definition catch_generate :: "thrown \<Rightarrow> app_state \<Rightarrow> app_state" where
  "catch_generate err s =
     (case err of
        Nullish \<Rightarrow> s
      | Thrown m \<Rightarrow> s\<lparr>error := Some (message_or m (js ''An error occurred during audio generation.''))\<rparr>)"

text \<open>Lines 67 to 69, the part of the handler that runs before the first \<^verbatim>\<open>await\<close>.\<close>

definition start_run :: "app_state \<Rightarrow> app_state" where
  "start_run s =
     s\<lparr>isProcessing := True, results := [],
       progress := \<lparr>current = 0, total' = length (pages s)\<rparr>\<rparr>"

text \<open>
  One whole run, from the click to the \<^verbatim>\<open>finally\<close> of line 90, which runs
  whether the loop ended, a call was rejected or the \<^verbatim>\<open>catch\<close> itself threw.
  \<open>evs\<close> gives, call by call, the handlers that run while the call is pending.
\<close>

definition generateAll :: "service \<Rightarrow> event list list \<Rightarrow> world \<times> app_state \<Rightarrow> world \<times> app_state" where
  "generateAll gen evs ws =
     (case ws of (w, s) \<Rightarrow>
        if length (pages s) = 0 then (w, s)
        else
          (case run_pages gen (config s) (pages s) evs (w, start_run s) of
             ((w', s'), Some err) \<Rightarrow> (w', (catch_generate err s')\<lparr>isProcessing := False\<rparr>)
           | ((w', s'), None) \<Rightarrow> (w', s'\<lparr>isProcessing := False\<rparr>)))"

subsection \<open>\<^verbatim>\<open>previewSample\<close>, lines 94 to 105\<close>

definition previewSample :: "service \<Rightarrow> world \<times> app_state \<Rightarrow> world \<times> app_state" where
  "previewSample gen ws =
     (case ws of (w, s) \<Rightarrow>
        (case pages s of
           [] \<Rightarrow> (w, s)
         | page # _ \<Rightarrow>
             (case generateSpeech gen (take 100 (content page)) (config s) s w of
                (Inl err, w1) \<Rightarrow> (w1, s\<lparr>error := Some (js ''Failed to preview audio.'')\<rparr>)
              | (Inr b, w1) \<Rightarrow>
                  (case createObjectURL b w1 of (u, w2) \<Rightarrow> (play u w2, s)))))"

subsection \<open>Markers and fragments\<close>

text \<open>
  What the properties of the split are stated with. \<open>is_marker m\<close>: the whole of
  \<open>m\<close> is one match of the pattern, the word in either case, then white space, then
  digits. \<open>has_marker s\<close>: the pattern matches somewhere in \<open>s\<close>.
  \<open>markers_of s\<close>: the matches that \<open>split_marker\<close> removes from \<open>s\<close>, found
  by the same scan. \<open>weave\<close> puts fragments and markers back together in turn.
\<close>

definition is_marker :: "jsstring \<Rightarrow> bool" where
  "is_marker m =
     (case m of
        p # a # g # e # r \<Rightarrow>
          ci_letter 0x0050 p \<and> ci_letter 0x0041 a \<and> ci_letter 0x0047 g \<and> ci_letter 0x0045 e
          \<and> takeWhile is_space r \<noteq> []
          \<and> dropWhile is_space r \<noteq> []
          \<and> list_all is_digit (dropWhile is_space r)
      | _ \<Rightarrow> False)"

fun has_marker :: "jsstring \<Rightarrow> bool" where
  "has_marker [] = False"
| "has_marker (c # cs) = (match_marker (c # cs) \<noteq> None \<or> has_marker cs)"

function markers_of :: "jsstring \<Rightarrow> jsstring list" where
  "markers_of [] = []"
| "markers_of (c # cs) =
     (case match_marker (c # cs) of
        Some r \<Rightarrow> take (length (c # cs) - length r) (c # cs) # markers_of r
      | None \<Rightarrow> markers_of cs)"
  by pat_completeness auto
termination
  by (relation "measure length") (auto dest: match_marker_shorter)

fun weave :: "jsstring list \<Rightarrow> jsstring list \<Rightarrow> jsstring" where
  "weave (f # fs) (m # ms) = f @ m @ weave fs ms"
| "weave fs [] = concat fs"
| "weave [] ms = concat ms"

subsection \<open>A run in closed form\<close>

text \<open>
  Readings of the loop, one for each thing it produces, each by the same recursion as
  \<open>run_pages\<close>: the clips it creates, the error that ends it, and the calls it logs.
  \<open>n\<close> is the number of calls made before and \<open>u\<close> the next object URL. The
  handlers that run in between change neither the pages that are synthesised nor the
  error that ends the loop. On the browser's side they only make object URLs:
  \<open>minted es\<close> counts those of the handlers \<open>es\<close> and \<open>mint k w\<close> is the
  browser after \<open>k\<close> of them; \<open>after es s\<close> is the component's state when the
  handlers \<open>es\<close> have run from \<open>s\<close>. The lemmas \<open>fold_handle\<close>,
  \<open>run_pages_outcome\<close> and \<open>run_pages_calls\<close> below tie them to the loop.
\<close>

fun minted :: "event list \<Rightarrow> nat" where
  "minted [] = 0"
| "minted (PreviewSettles (Inr b) # es) = Suc (minted es)"
| "minted (e # es) = minted es"

definition mint :: "nat \<Rightarrow> world \<Rightarrow> world" where
  "mint k w =
     w\<lparr>next_url := next_url w + k,
       live := live w @ [next_url w ..< next_url w + k],
       played := played w @ [next_url w ..< next_url w + k]\<rparr>"

definition after :: "event list \<Rightarrow> app_state \<Rightarrow> app_state" where
  "after es s = snd (fold handle es (\<lparr>calls = [], next_url = 0, live = [], played = []\<rparr>, s))"

fun clips ::
  "service \<Rightarrow> TTSConfig \<Rightarrow> nat \<Rightarrow> url \<Rightarrow> event list list \<Rightarrow> StoryPage list \<Rightarrow> GeneratedAudio list" where
  "clips gen cfg n u evs [] = []"
| "clips gen cfg n u evs (page # rest) =
     (case gen n (content page) cfg of
        Inl err \<Rightarrow> []
      | Inr b \<Rightarrow>
          newResult page b (u + minted (during evs)) #
          clips gen cfg (Suc n) (Suc (u + minted (during evs))) (tl evs) rest)"

fun outcome :: "service \<Rightarrow> TTSConfig \<Rightarrow> nat \<Rightarrow> StoryPage list \<Rightarrow> thrown option" where
  "outcome gen cfg n [] = None"
| "outcome gen cfg n (page # rest) =
     (case gen n (content page) cfg of
        Inl err \<Rightarrow> Some err
      | Inr b \<Rightarrow> outcome gen cfg (Suc n) rest)"

fun call_log ::
  "service \<Rightarrow> TTSConfig \<Rightarrow> nat \<Rightarrow> url \<Rightarrow> app_state \<Rightarrow> event list list \<Rightarrow> StoryPage list \<Rightarrow> call list" where
  "call_log gen cfg n u s evs [] = []"
| "call_log gen cfg n u s evs (page # rest) =
     \<lparr>call_text = content page, call_config = cfg, call_state = s\<rparr> #
     (case gen n (content page) cfg of
        Inl err \<Rightarrow> []
      | Inr b \<Rightarrow>
          call_log gen cfg (Suc n) (Suc (u + minted (during evs)))
            ((after (during evs) s)
               \<lparr>results := results (after (during evs) s) @ [newResult page b (u + minted (during evs))],
                progress := (progress (after (during evs) s))
                              \<lparr>current := current (progress (after (during evs) s)) + 1\<rparr>\<rparr>)
            (tl evs) rest)"


subsection \<open>Example data\<close>

text \<open>The state of a fresh component (lines 27 to 37) and of a fresh browser page.\<close>

definition initial_state :: app_state where
  "initial_state =
     \<lparr>file' = None, pages = [],
      config = \<lparr>emotion = Gentle, tone = Warm, speed = Normal\<rparr>,
      isProcessing = False, results = [], error = None,
      progress = \<lparr>current = 0, total' = 0\<rparr>\<rparr>"

definition initial_world :: world where
  "initial_world = \<lparr>calls = [], next_url = 0, live = [], played = []\<rparr>"

definition three_pages :: "StoryPage list" where
  "three_pages =
     [\<lparr>id' = 1, content = js ''Once upon a time.''\<rparr>,
      \<lparr>id' = 2, content = js ''A fox ran.''\<rparr>,
      \<lparr>id' = 3, content = js ''The end.''\<rparr>]"

text \<open>A service that always answers with two bytes of audio, and one whose second call fails.\<close>

definition service_ok :: service where
  "service_ok n t c = Inr [0x52, 0x49]"


text \<open>The scenario of the specification: two markers on lines of their own.\<close>

definition story :: jsstring where
  "story = js ''Page 1'' @ [0x000A] @ js ''Once upon a time.'' @ [0x000A] @ js ''Page 2'' @ [0x000A] @ js ''The end.''"


definition service_undefined :: service where
  "service_undefined n t c = Inl Nullish"

text \<open>A service that rejects every call, with an error object that has no message.\<close>

definition service_down :: service where
  "service_down n t c = Inl (Thrown None)"

text \<open>
  The browser and the component in the middle of a run over \<open>three_pages\<close>: the first
  clip is in \<^verbatim>\<open>results\<close>, the call for the second page is pending.
\<close>

definition busy_state :: app_state where
  "busy_state =
     initial_state\<lparr>pages := three_pages, isProcessing := True,
       results := [\<lparr>pageId = 1, blob = [0x52, 0x49], url = 0, filename = js ''Page_1.wav''\<rparr>],
       progress := \<lparr>current = 1, total' = 3\<rparr>\<rparr>"

definition busy_world :: world where
  "busy_world =
     \<lparr>calls = [\<lparr>call_text = js ''Once upon a time.'',
                call_config = \<lparr>emotion = Gentle, tone = Warm, speed = Normal\<rparr>,
                call_state = initial_state\<lparr>pages := three_pages, isProcessing := True,
                               progress := \<lparr>current = 0, total' = 3\<rparr>\<rparr>\<rparr>],
      next_url = 1, live = [0], played = []\<rparr>"

text \<open>
  The middle of the same run a little later, after \<^verbatim>\<open>reset\<close> was clicked while
  the call for the second page was pending and that call then succeeded: the loop went on
  and appended its clip and counted it.
\<close>

definition stale_state :: app_state where
  "stale_state =
     initial_state\<lparr>isProcessing := True,
       results := [\<lparr>pageId = 2, blob = [0x52, 0x49], url = 1, filename = js ''Page_2.wav''\<rparr>],
       progress := \<lparr>current = 1, total' = 0\<rparr>\<rparr>"

definition stale_world :: world where
  "stale_world =
     busy_world\<lparr>calls := calls busy_world @
                   [\<lparr>call_text = js ''A fox ran.'',
                     call_config = \<lparr>emotion = Gentle, tone = Warm, speed = Normal\<rparr>,
                     call_state = busy_state\<rparr>],
                 next_url := 2, live := [0, 1]\<rparr>"

section \<open>Properties of a run\<close>

subsection \<open>The handlers in between\<close>

lemma mint_fields:
  "calls (mint k w) = calls w" "next_url (mint k w) = next_url w + k"
  "live (mint k w) = live w @ [next_url w ..< next_url w + k]"
  "played (mint k w) = played w @ [next_url w ..< next_url w + k]"
  by (simp_all add: mint_def)

lemma mint_0: "mint 0 w = w"
  by (simp add: mint_def)

lemma mint_mint: "mint b (mint a w) = mint (a + b) w"
proof -
  have "[next_url w ..< (next_url w + a) + b] =
        [next_url w ..< next_url w + a] @ [next_url w + a ..< (next_url w + a) + b]"
    by (rule upt_add_eq_append) simp
  then have "[next_url w ..< next_url w + a] @ [next_url w + a ..< next_url w + (a + b)] =
        [next_url w ..< next_url w + (a + b)]"
    by (simp add: add.assoc)
  then show ?thesis
    by (simp add: mint_def add.assoc)
qed

lemma handle_one:
  "handle e (w, s) = (mint (minted [e]) w, snd (handle e (w0, s)))"
proof (cases e)
  case (PreviewSettles answer)
  then show ?thesis
    by (cases answer) (simp_all add: handle_def createObjectURL_def play_def mint_def)
qed (simp_all add: handle_def reset_def parseFile_def mint_0 split: option.splits)

text \<open>
  The handler \<open>PreviewSettles\<close> is the part of \<open>previewSample\<close> that runs when
  its call has settled.
\<close>

lemma previewSample_settles:
  "pages s = page # rest \<Longrightarrow>
   previewSample gen (w, s) =
     handle (PreviewSettles (gen (length (calls w)) (take 100 (content page)) (config s)))
       (w\<lparr>calls := calls w @ [\<lparr>call_text = take 100 (content page), call_config = config s, call_state = s\<rparr>]\<rparr>, s)"
  by (simp add: previewSample_def handle_def generateSpeech_def split: sum.splits prod.splits)

lemma minted_Cons: "minted (e # es) = minted [e] + minted es"
proof (cases e)
  case (PreviewSettles answer)
  then show ?thesis by (cases answer) simp_all
qed simp_all

lemma fold_handle: "fold handle es (w, s) = (mint (minted es) w, after es s)"
proof (induction es arbitrary: w s)
  case Nil
  then show ?case by (simp add: after_def mint_0)
next
  case (Cons e es)
  let ?w0 = "\<lparr>calls = [], next_url = 0, live = [], played = []\<rparr>"
  let ?s = "snd (handle e (?w0, s))"
  have "fold handle (e # es) (w, s) = fold handle es (mint (minted [e]) w, ?s)"
    using handle_one [of e w s ?w0] by simp
  also have "\<dots> = (mint (minted es) (mint (minted [e]) w), after es ?s)"
    by (rule Cons.IH)
  also have "mint (minted es) (mint (minted [e]) w) = mint (minted (e # es)) w"
    by (simp add: mint_mint minted_Cons [of e es])
  also have "after es ?s = after (e # es) s"
  proof -
    have "fold handle (e # es) (?w0, s) = fold handle es (mint (minted [e]) ?w0, ?s)"
      using handle_one [of e ?w0 s ?w0] by simp
    also have "\<dots> = (mint (minted es) (mint (minted [e]) ?w0), after es ?s)"
      by (rule Cons.IH)
    finally show ?thesis by (simp add: after_def)
  qed
  finally show ?case .
qed

lemma after_Nil: "after [] s = s"
  by (simp add: after_def)

lemma after_Cons: "after (e # es) s = after es (after [e] s)"
proof -
  let ?w0 = "\<lparr>calls = [], next_url = 0, live = [], played = []\<rparr>"
  have "fold handle (e # es) (?w0, s) = fold handle es (fold handle [e] (?w0, s))"
    by simp
  also have "\<dots> = fold handle es (mint (minted [e]) ?w0, after [e] s)"
    by (simp only: fold_handle)
  also have "\<dots> = (mint (minted es) (mint (minted [e]) ?w0), after es (after [e] s))"
    by (rule fold_handle)
  finally have "snd (fold handle (e # es) (?w0, s)) = after es (after [e] s)"
    by simp
  then show ?thesis by (simp only: after_def)
qed

lemma after_one:
  "after [Reset] s =
     (if showsReset s
      then s\<lparr>file' := None, pages := [], results := [], error := None, progress := \<lparr>current = 0, total' = 0\<rparr>\<rparr>
      else s)"
  "after [DismissError] s = s\<lparr>error := None\<rparr>"
  "after [Load f] s =
     (case file_text f of
        Some text \<Rightarrow> s\<lparr>pages := newPages text, file' := Some f, results := [], error := None\<rparr>
      | None \<Rightarrow> s\<lparr>error := Some (js ''Failed to read the file. Please ensure it is a valid text file.'')\<rparr>)"
  "after [PreviewSettles answer] s =
     (case answer of
        Inl err \<Rightarrow> s\<lparr>error := Some (js ''Failed to preview audio.'')\<rparr>
      | Inr b \<Rightarrow> s)"
  by (simp_all add: after_def handle_def reset_def parseFile_def createObjectURL_def play_def
      split: option.splits sum.splits)

lemma after_flags: "isProcessing (after es s) = isProcessing s" "config (after es s) = config s"
proof (induction es arbitrary: s)
  case Nil
  { case 1 show ?case by (simp add: after_Nil) }
  { case 2 show ?case by (simp add: after_Nil) }
next
  case (Cons e es)
  { case 1 show ?case
      by (subst after_Cons, cases e) (simp_all add: Cons.IH(1) after_one split: option.splits sum.splits) }
  { case 2 show ?case
      by (subst after_Cons, cases e) (simp_all add: Cons.IH(2) after_one split: option.splits sum.splits) }
qed

lemma after_results: "set (results (after es s)) \<subseteq> set (results s)"
proof (induction es arbitrary: s)
  case Nil
  then show ?case by (simp add: after_Nil)
next
  case (Cons e es)
  have "set (results (after [e] s)) \<subseteq> set (results s)"
    by (cases e) (simp_all add: after_one split: option.splits sum.splits)
  with Cons.IH [of "after [e] s"] show ?case
    by (subst after_Cons) blast
qed



lemma after_progress: "Reset \<notin> set es \<Longrightarrow> progress (after es s) = progress s"
proof (induction es arbitrary: s)
  case Nil
  then show ?case by (simp add: after_Nil)
next
  case (Cons e es)
  from Cons.prems have e: "e \<noteq> Reset" and es: "Reset \<notin> set es" by auto
  from e have "progress (after [e] s) = progress s"
    by (cases e) (simp_all add: after_one split: option.splits sum.splits)
  with Cons.IH [OF es, of "after [e] s"] show ?case
    by (simp add: after_Cons [of e es s])
qed

text \<open>While the first call of a run is pending no Reset button is rendered.\<close>

lemma after_no_results:
  "results s = [] \<Longrightarrow> isProcessing s \<Longrightarrow> progress (after es s) = progress s \<and> results (after es s) = []"
proof (induction es arbitrary: s)
  case Nil
  then show ?case by (simp add: after_Nil)
next
  case (Cons e es)
  from Cons.prems have "\<not> showsReset s"
    by (simp add: showsReset_def showsGenerate_def)
  with Cons.prems have "results (after [e] s) = [] \<and> isProcessing (after [e] s) \<and> progress (after [e] s) = progress s"
    by (cases e) (simp_all add: after_one split: option.splits sum.splits)
  with Cons.IH [of "after [e] s"] show ?case
    by (simp add: after_Cons [of e es s])
qed

lemma during_simps: "during [] = []" "during (es # evs) = es"
  by (simp_all add: during_def)



subsection \<open>The loop\<close>

text \<open>
  One turn of the loop: \<open>step_world\<close> is the browser when the call has been logged and
  the handlers in between have run, \<open>step_state\<close> the component's state when the clip
  has then been appended.
\<close>

lemma run_pages_Cons:
  "run_pages gen cfg (page # rest) evs (w, s) =
     (case gen (length (calls w)) (content page) cfg of
        Inl err \<Rightarrow>
          ((mint (minted (during evs))
              (w\<lparr>calls := calls w @ [\<lparr>call_text = content page, call_config = cfg, call_state = s\<rparr>]\<rparr>),
            after (during evs) s), Some err)
      | Inr b \<Rightarrow>
          run_pages gen cfg rest (tl evs)
            ((mint (minted (during evs))
                (w\<lparr>calls := calls w @ [\<lparr>call_text = content page, call_config = cfg, call_state = s\<rparr>]\<rparr>))
               \<lparr>next_url := Suc (next_url w + minted (during evs)),
                live := live w @ [next_url w ..< next_url w + minted (during evs)]
                          @ [next_url w + minted (during evs)]\<rparr>,
             (after (during evs) s)
               \<lparr>results := results (after (during evs) s) @ [newResult page b (next_url w + minted (during evs))],
                progress := (progress (after (during evs) s))
                              \<lparr>current := current (progress (after (during evs) s)) + 1\<rparr>\<rparr>))"
  by (simp add: generateSpeech_def createObjectURL_def fold_handle mint_fields split: sum.splits)

declare run_pages.simps(2) [simp del]

lemma run_pages_outcome: "snd (run_pages gen cfg ps evs (w, s)) = outcome gen cfg (length (calls w)) ps"
  by (induction ps arbitrary: w s evs) (simp_all add: run_pages_Cons mint_fields split: sum.splits)

lemma run_pages_calls:
  "calls (fst (fst (run_pages gen cfg ps evs (w, s)))) =
     calls w @ call_log gen cfg (length (calls w)) (next_url w) s evs ps"
  by (induction ps arbitrary: w s evs) (simp_all add: run_pages_Cons mint_fields split: sum.splits)

lemma run_pages_flags:
  "isProcessing (snd (fst (run_pages gen cfg ps evs (w, s)))) = isProcessing s"
  "config (snd (fst (run_pages gen cfg ps evs (w, s)))) = config s"
  by (induction ps arbitrary: w s evs; simp add: run_pages_Cons after_flags split: sum.splits)+

lemma run_pages_live_grows:
  "set (live w) \<subseteq> set (live (fst (fst (run_pages gen cfg ps evs (w, s)))))"
proof (induction ps arbitrary: w s evs)
  case Nil
  then show ?case by simp
next
  case (Cons p ps)
  show ?case
  proof (cases "gen (length (calls w)) (content p) cfg")
    case (Inl err)
    then show ?thesis by (simp add: run_pages_Cons mint_fields)
  next
    case (Inr b)
    let ?k = "minted (during evs)"
    let ?w = "(mint ?k (w\<lparr>calls := calls w @ [\<lparr>call_text = content p, call_config = cfg, call_state = s\<rparr>]\<rparr>))
               \<lparr>next_url := Suc (next_url w + ?k),
                live := live w @ [next_url w ..< next_url w + ?k] @ [next_url w + ?k]\<rparr>"
    let ?s = "(after (during evs) s)
               \<lparr>results := results (after (during evs) s) @ [newResult p b (next_url w + ?k)],
                progress := (progress (after (during evs) s))
                              \<lparr>current := current (progress (after (during evs) s)) + 1\<rparr>\<rparr>"
    have "set (live ?w) \<subseteq> set (live (fst (fst (run_pages gen cfg ps (tl evs) (?w, ?s)))))"
      by (rule Cons.IH)
    moreover have "set (live w) \<subseteq> set (live ?w)"
      by auto
    ultimately show ?thesis
      using Inr by (simp add: run_pages_Cons)
  qed
qed

lemma run_pages_clips_live:
  "url ` set (clips gen cfg (length (calls w)) (next_url w) evs ps) \<subseteq>
     set (live (fst (fst (run_pages gen cfg ps evs (w, s)))))"
proof (induction ps arbitrary: w s evs)
  case Nil
  then show ?case by simp
next
  case (Cons p ps)
  show ?case
  proof (cases "gen (length (calls w)) (content p) cfg")
    case (Inl err)
    then show ?thesis by simp
  next
    case (Inr b)
    let ?k = "minted (during evs)"
    let ?w = "(mint ?k (w\<lparr>calls := calls w @ [\<lparr>call_text = content p, call_config = cfg, call_state = s\<rparr>]\<rparr>))
               \<lparr>next_url := Suc (next_url w + ?k),
                live := live w @ [next_url w ..< next_url w + ?k] @ [next_url w + ?k]\<rparr>"
    let ?s = "(after (during evs) s)
               \<lparr>results := results (after (during evs) s) @ [newResult p b (next_url w + ?k)],
                progress := (progress (after (during evs) s))
                              \<lparr>current := current (progress (after (during evs) s)) + 1\<rparr>\<rparr>"
    have run: "run_pages gen cfg (p # ps) evs (w, s) = run_pages gen cfg ps (tl evs) (?w, ?s)"
      using Inr by (simp add: run_pages_Cons)
    have "url ` set (clips gen cfg (length (calls ?w)) (next_url ?w) (tl evs) ps) \<subseteq>
            set (live (fst (fst (run_pages gen cfg ps (tl evs) (?w, ?s)))))"
      by (rule Cons.IH)
    then have rest: "url ` set (clips gen cfg (Suc (length (calls w))) (Suc (next_url w + ?k)) (tl evs) ps) \<subseteq>
            set (live (fst (fst (run_pages gen cfg ps (tl evs) (?w, ?s)))))"
      by (simp add: mint_fields)
    have "next_url w + ?k \<in> set (live ?w)"
      by simp
    with run_pages_live_grows [of ?w gen cfg ps "tl evs" ?s]
    have first: "next_url w + ?k \<in> set (live (fst (fst (run_pages gen cfg ps (tl evs) (?w, ?s)))))"
      by blast
    from rest first show ?thesis
      using Inr by (simp add: run newResult_def)
  qed
qed

lemma run_pages_results_subset:
  "set (results (snd (fst (run_pages gen cfg ps evs (w, s))))) \<subseteq>
     set (results s) \<union> set (clips gen cfg (length (calls w)) (next_url w) evs ps)"
proof (induction ps arbitrary: w s evs)
  case Nil
  then show ?case by simp
next
  case (Cons p ps)
  show ?case
  proof (cases "gen (length (calls w)) (content p) cfg")
    case (Inl err)
    then show ?thesis
      using after_results [of "during evs" s] by (simp add: run_pages_Cons)
  next
    case (Inr b)
    let ?k = "minted (during evs)"
    let ?w = "(mint ?k (w\<lparr>calls := calls w @ [\<lparr>call_text = content p, call_config = cfg, call_state = s\<rparr>]\<rparr>))
               \<lparr>next_url := Suc (next_url w + ?k),
                live := live w @ [next_url w ..< next_url w + ?k] @ [next_url w + ?k]\<rparr>"
    let ?s = "(after (during evs) s)
               \<lparr>results := results (after (during evs) s) @ [newResult p b (next_url w + ?k)],
                progress := (progress (after (during evs) s))
                              \<lparr>current := current (progress (after (during evs) s)) + 1\<rparr>\<rparr>"
    have "set (results (snd (fst (run_pages gen cfg ps (tl evs) (?w, ?s))))) \<subseteq>
            set (results ?s) \<union> set (clips gen cfg (length (calls ?w)) (next_url ?w) (tl evs) ps)"
      by (rule Cons.IH)
    then have "set (results (snd (fst (run_pages gen cfg ps (tl evs) (?w, ?s))))) \<subseteq>
            set (results ?s) \<union> set (clips gen cfg (Suc (length (calls w))) (Suc (next_url w + ?k)) (tl evs) ps)"
      by (simp add: mint_fields)
    moreover have "set (results ?s) \<subseteq> set (results s) \<union> {newResult p b (next_url w + ?k)}"
      using after_results [of "during evs" s] by auto
    ultimately show ?thesis
      using Inr by (auto simp: run_pages_Cons)
  qed
qed


subsection \<open>The clips and the call log\<close>


lemma clips_length_le: "length (clips gen cfg n u evs ps) \<le> length ps"
  by (induction ps arbitrary: n u evs) (auto split: sum.splits)


lemma clips_url_fresh: "r \<in> set (clips gen cfg n u evs ps) \<Longrightarrow> u \<le> url r"
proof (induction ps arbitrary: n u evs)
  case Nil
  then show ?case by simp
next
  case (Cons p ps)
  show ?case
  proof (cases "gen n (content p) cfg")
    case (Inl err)
    with Cons.prems show ?thesis by simp
  next
    case (Inr b)
    with Cons.prems have "r = newResult p b (u + minted (during evs))
        \<or> r \<in> set (clips gen cfg (Suc n) (Suc (u + minted (during evs))) (tl evs) ps)"
      by simp
    then show ?thesis
    proof
      assume "r = newResult p b (u + minted (during evs))"
      then show ?thesis by (simp add: newResult_def)
    next
      assume "r \<in> set (clips gen cfg (Suc n) (Suc (u + minted (during evs))) (tl evs) ps)"
      from Cons.IH [OF this] show ?thesis by simp
    qed
  qed
qed






lemma call_log_results:
  "c \<in> set (call_log gen cfg n u s evs ps) \<Longrightarrow>
     set (results (call_state c)) \<subseteq> set (results s) \<union> set (clips gen cfg n u evs ps)"
proof (induction ps arbitrary: n u s evs)
  case Nil
  then show ?case by simp
next
  case (Cons p ps)
  show ?case
  proof (cases "c = \<lparr>call_text = content p, call_config = cfg, call_state = s\<rparr>")
    case True
    then show ?thesis by auto
  next
    case False
    let ?a = "after (during evs) s"
    let ?s = "\<lambda>b. ?a\<lparr>results := results ?a @ [newResult p b (u + minted (during evs))],
                      progress := (progress ?a)\<lparr>current := current (progress ?a) + 1\<rparr>\<rparr>"
    from False Cons.prems obtain b where b: "gen n (content p) cfg = Inr b"
      and c: "c \<in> set (call_log gen cfg (Suc n) (Suc (u + minted (during evs))) (?s b) (tl evs) ps)"
      by (cases "gen n (content p) cfg") auto
    from Cons.IH [OF c]
    have "set (results (call_state c)) \<subseteq> set (results (?s b)) \<union> set (clips gen cfg (Suc n) (Suc (u + minted (during evs))) (tl evs) ps)" .
    moreover have "set (results (?s b)) \<subseteq> set (results s) \<union> {newResult p b (u + minted (during evs))}"
      using after_results [of "during evs" s] by auto
    ultimately show ?thesis
      using b by auto
  qed
qed


subsection \<open>The whole run\<close>


lemma generateAll_empty: "pages s = [] \<Longrightarrow> generateAll gen evs (w, s) = (w, s)"
  by (simp add: generateAll_def)

lemma generateAll_world:
  "pages s \<noteq> [] \<Longrightarrow>
   fst (generateAll gen evs (w, s)) = fst (fst (run_pages gen (config s) (pages s) evs (w, start_run s)))"
  by (simp add: generateAll_def split: prod.splits option.splits)

lemma generateAll_state:
  "pages s \<noteq> [] \<Longrightarrow>
   snd (generateAll gen evs (w, s)) =
     (case outcome gen (config s) (length (calls w)) (pages s) of
        None \<Rightarrow> snd (fst (run_pages gen (config s) (pages s) evs (w, start_run s)))
      | Some err \<Rightarrow> catch_generate err (snd (fst (run_pages gen (config s) (pages s) evs (w, start_run s)))))
       \<lparr>isProcessing := False\<rparr>"
  using run_pages_outcome [of gen "config s" "pages s" evs w "start_run s"]
  by (auto simp add: generateAll_def split: prod.splits option.splits)

lemma catch_generate_fields:
  "results (catch_generate err s) = results s" "progress (catch_generate err s) = progress s"
  "pages (catch_generate err s) = pages s" "isProcessing (catch_generate err s) = isProcessing s"
  by (simp_all add: catch_generate_def split: thrown.splits)

lemma generateAll_calls:
  "pages s \<noteq> [] \<Longrightarrow>
   calls (fst (generateAll gen evs (w, s))) =
     calls w @ call_log gen (config s) (length (calls w)) (next_url w) (start_run s) evs (pages s)"
  by (simp add: generateAll_world run_pages_calls)

lemma generateAll_live_grows:
  "set (live w) \<subseteq> set (live (fst (generateAll gen evs (w, s))))"
proof (cases "pages s = []")
  case True
  then show ?thesis by (simp add: generateAll_empty)
next
  case False
  have "set (live w) \<subseteq> set (live (fst (fst (run_pages gen (config s) (pages s) evs (w, start_run s)))))"
    by (rule run_pages_live_grows)
  with False show ?thesis by (simp add: generateAll_world)
qed

lemma generateAll_clips_live:
  "pages s \<noteq> [] \<Longrightarrow>
   url ` set (clips gen (config s) (length (calls w)) (next_url w) evs (pages s)) \<subseteq>
     set (live (fst (generateAll gen evs (w, s))))"
  using run_pages_clips_live [of gen "config s" w evs "pages s" "start_run s"]
  by (simp add: generateAll_world)

lemma generateAll_isProcessing:
  "pages s \<noteq> [] \<Longrightarrow> \<not> isProcessing (snd (generateAll gen evs (w, s)))"
  by (simp add: generateAll_state)

lemma generateAll_results_subset:
  "pages s \<noteq> [] \<Longrightarrow>
   set (results (snd (generateAll gen evs (w, s)))) \<subseteq>
     set (clips gen (config s) (length (calls w)) (next_url w) evs (pages s))"
  using run_pages_results_subset [of gen "config s" "pages s" evs w "start_run s"]
  by (simp add: generateAll_state catch_generate_fields start_run_def split: option.splits)



lemma parseFile_keeps_progress: "progress (snd (parseFile f (w, s))) = progress s"
  by (simp add: parseFile_def split: option.splits)

lemma reset_clears:
  "snd (reset (w, s)) =
     s\<lparr>file' := None, pages := [], results := [], error := None, progress := \<lparr>current = 0, total' = 0\<rparr>\<rparr>"
  by (simp add: reset_def)

section \<open>Properties of the segmentation\<close>

lemma hd_trim: "trim s \<noteq> [] \<Longrightarrow> \<not> is_space (hd (trim s))"
proof -
  assume ne: "trim s \<noteq> []"
  let ?d = "dropWhile is_space s"
  have "rev (takeWhile is_space (rev ?d) @ dropWhile is_space (rev ?d)) = rev (rev ?d)"
    by (simp only: takeWhile_dropWhile_id)
  then have d: "?d = trim s @ rev (takeWhile is_space (rev ?d))"
    by (simp only: rev_append rev_rev_ident trim_def)
  with ne have "?d \<noteq> []" by (metis append_is_Nil_conv)
  then have "\<not> is_space (hd ?d)" by (rule hd_dropWhile)
  moreover have "hd ?d = hd (trim s)"
    using d ne by (metis hd_append2)
  ultimately show ?thesis by simp
qed

lemma last_trim: "trim s \<noteq> [] \<Longrightarrow> \<not> is_space (last (trim s))"
proof -
  assume ne: "trim s \<noteq> []"
  let ?r = "dropWhile is_space (rev (dropWhile is_space s))"
  from ne have "?r \<noteq> []" by (simp add: trim_def)
  then have "\<not> is_space (hd ?r)" by (rule hd_dropWhile)
  moreover have "last (trim s) = hd ?r"
    using \<open>?r \<noteq> []\<close> by (simp add: trim_def last_rev)
  ultimately show ?thesis by simp
qed

lemma trim_not_blank: "trim s \<noteq> [] \<Longrightarrow> \<not> list_all is_space (trim s)"
  using hd_trim [of s] by (cases "trim s") auto

lemma dropWhile_hd_id: "xs = [] \<or> \<not> P (hd xs) \<Longrightarrow> dropWhile P xs = xs"
  by (cases xs) auto

lemma trim_idem: "trim (trim s) = trim s"
proof (cases "trim s = []")
  case True
  have "trim [] = []" by (simp add: trim_def)
  with True show ?thesis by simp
next
  case False
  have 1: "dropWhile is_space (trim s) = trim s"
    using hd_trim [OF False] by (intro dropWhile_hd_id) simp
  have "hd (rev (trim s)) = last (trim s)"
    using False by (simp add: hd_rev)
  then have 2: "dropWhile is_space (rev (trim s)) = rev (trim s)"
    using last_trim [OF False] by (intro dropWhile_hd_id) simp
  show ?thesis
    unfolding trim_def [of "trim s"] 1 2 by simp
qed

lemma length_newPages: "length (newPages text) = length (parts text)"
  by (simp add: newPages_def)

lemma map_zip_snd: "length xs = length ys \<Longrightarrow> map (\<lambda>x. f (snd x)) (zip xs ys) = map f ys"
  by (induction xs ys rule: list_induct2) auto

lemma map_zip_fst: "length xs = length ys \<Longrightarrow> map (\<lambda>x. f (fst x)) (zip xs ys) = map f xs"
  by (induction xs ys rule: list_induct2) auto

lemma newPages_ids: "map id' (newPages text) = [1 ..< Suc (length (newPages text))]"
proof -
  have "map id' (newPages text) = map Suc [0 ..< length (parts text)]"
    by (simp add: newPages_def case_prod_unfold comp_def map_zip_snd)
  also have "\<dots> = [1 ..< Suc (length (parts text))]"
    by (simp add: map_Suc_upt)
  finally show ?thesis by (simp add: length_newPages)
qed

lemma newPages_content: "map content (newPages text) = map trim (parts text)"
  by (simp add: newPages_def case_prod_unfold comp_def map_zip_fst)

lemma takeWhile_Nil_hd': "xs = [] \<or> \<not> P (hd xs) \<Longrightarrow> takeWhile P xs = []"
  by (cases xs) auto

lemma run_then_stop:
  "\<forall>x\<in>set xs. P x \<Longrightarrow> ys = [] \<or> \<not> P (hd ys) \<Longrightarrow>
   takeWhile P (xs @ ys) = xs \<and> dropWhile P (xs @ ys) = ys"
  by (induction xs) (auto simp: takeWhile_Nil_hd' dropWhile_hd_id)


lemma match_marker_SomeD:
  assumes "match_marker s = Some r"
  obtains p a g e t where "s = p # a # g # e # t"
    and "ci_letter 0x0050 p" "ci_letter 0x0041 a" "ci_letter 0x0047 g" "ci_letter 0x0045 e"
    and "takeWhile is_space t \<noteq> []"
    and "takeWhile is_digit (dropWhile is_space t) \<noteq> []"
    and "r = dropWhile is_digit (dropWhile is_space t)"
  using assms by (auto simp: match_marker_def split: list.splits if_splits)


text \<open>
  The greedy \<open>match_marker\<close> matches exactly where the pattern can match at all: the
  word, then some white space, then some digits, then anything.
\<close>

lemma space_not_digit: "is_space c \<Longrightarrow> \<not> is_digit c"
  by (auto simp: is_space_def is_digit_def word_le_nat_alt)

lemma match_marker_iff_pattern:
  "match_marker s \<noteq> None \<longleftrightarrow>
     (\<exists>p a g e ws ds rest.
        s = p # a # g # e # ws @ ds @ rest
        \<and> ci_letter 0x0050 p \<and> ci_letter 0x0041 a \<and> ci_letter 0x0047 g \<and> ci_letter 0x0045 e
        \<and> ws \<noteq> [] \<and> list_all is_space ws \<and> ds \<noteq> [] \<and> list_all is_digit ds)"
proof
  assume "match_marker s \<noteq> None"
  then obtain r where "match_marker s = Some r" by auto
  then obtain p a g e t where s: "s = p # a # g # e # t"
    and ci: "ci_letter 0x0050 p" "ci_letter 0x0041 a" "ci_letter 0x0047 g" "ci_letter 0x0045 e"
    and ws: "takeWhile is_space t \<noteq> []"
    and ds: "takeWhile is_digit (dropWhile is_space t) \<noteq> []"
    and r: "r = dropWhile is_digit (dropWhile is_space t)"
    by (rule match_marker_SomeD)
  let ?ws = "takeWhile is_space t" and ?ds = "takeWhile is_digit (dropWhile is_space t)"
  have "t = ?ws @ ?ds @ r" by (simp add: r)
  then have "s = p # a # g # e # ?ws @ ?ds @ r" by (simp add: s)
  moreover have "list_all is_space ?ws" "list_all is_digit ?ds"
    by (auto simp: list_all_iff dest: set_takeWhileD)
  ultimately show "\<exists>p a g e ws ds rest.
        s = p # a # g # e # ws @ ds @ rest
        \<and> ci_letter 0x0050 p \<and> ci_letter 0x0041 a \<and> ci_letter 0x0047 g \<and> ci_letter 0x0045 e
        \<and> ws \<noteq> [] \<and> list_all is_space ws \<and> ds \<noteq> [] \<and> list_all is_digit ds"
    using ci ws ds by blast
next
  assume "\<exists>p a g e ws ds rest.
        s = p # a # g # e # ws @ ds @ rest
        \<and> ci_letter 0x0050 p \<and> ci_letter 0x0041 a \<and> ci_letter 0x0047 g \<and> ci_letter 0x0045 e
        \<and> ws \<noteq> [] \<and> list_all is_space ws \<and> ds \<noteq> [] \<and> list_all is_digit ds"
  then obtain p a g e ws ds rest where s: "s = p # a # g # e # ws @ ds @ rest"
    and ci: "ci_letter 0x0050 p" "ci_letter 0x0041 a" "ci_letter 0x0047 g" "ci_letter 0x0045 e"
    and ws: "ws \<noteq> []" "list_all is_space ws" and ds: "ds \<noteq> []" "list_all is_digit ds"
    by blast
  from ds obtain d ds' where d: "ds = d # ds'" "is_digit d"
    by (cases ds) auto
  then have nsp: "\<not> is_space d" using space_not_digit by blast
  have all: "\<forall>x\<in>set ws. is_space x" using ws(2) by (simp add: list_all_iff)
  have stop: "ds @ rest = [] \<or> \<not> is_space (hd (ds @ rest))"
    using d nsp by simp
  have tw: "takeWhile is_space (ws @ ds @ rest) = ws" and dw: "dropWhile is_space (ws @ ds @ rest) = ds @ rest"
    using run_then_stop [OF all stop] by blast+
  have "takeWhile is_digit (ds @ rest) \<noteq> []"
    using d by simp
  then show "match_marker s \<noteq> None"
    unfolding s match_marker_def list.case tw dw using ci ws(1) by simp
qed

lemma take_diff_append: "take (length (m @ r) - length r) (m @ r) = m"
  by simp

lemma match_marker_split:
  assumes "match_marker s = Some r"
  shows "s = take (length s - length r) s @ r \<and> is_marker (take (length s - length r) s)
         \<and> is_space (s ! 4)"
proof -
  from assms obtain p a g e t where s: "s = p # a # g # e # t"
    and ci: "ci_letter 0x0050 p" "ci_letter 0x0041 a" "ci_letter 0x0047 g" "ci_letter 0x0045 e"
    and ws: "takeWhile is_space t \<noteq> []"
    and ds: "takeWhile is_digit (dropWhile is_space t) \<noteq> []"
    and r: "r = dropWhile is_digit (dropWhile is_space t)"
    by (rule match_marker_SomeD)
  let ?ws = "takeWhile is_space t" and ?t1 = "dropWhile is_space t"
  let ?ds = "takeWhile is_digit ?t1"
  have t: "t = ?ws @ ?ds @ r"
    by (simp add: r)
  have s': "s = (p # a # g # e # ?ws @ ?ds) @ r"
    using t by (simp add: s)
  have tk: "take (length s - length r) s = p # a # g # e # ?ws @ ?ds"
    using take_diff_append [of "p # a # g # e # ?ws @ ?ds" r] s' by metis
  from ds have t1: "?t1 \<noteq> []" by (metis takeWhile.simps(1))
  then have nsp: "\<not> is_space (hd ?t1)" by (rule hd_dropWhile)
  have hd_ds: "hd ?ds = hd ?t1"
    using ds by (cases ?t1) (auto split: if_splits)
  have all_ws: "\<forall>x\<in>set ?ws. is_space x"
    by (auto dest: set_takeWhileD)
  have stop: "?ds = [] \<or> \<not> is_space (hd ?ds)"
    using nsp hd_ds by simp
  have tw: "takeWhile is_space (?ws @ ?ds) = ?ws" and dw: "dropWhile is_space (?ws @ ?ds) = ?ds"
    using run_then_stop [OF all_ws stop] by blast+
  have dg: "list_all is_digit ?ds"
    by (auto simp: list_all_iff dest: set_takeWhileD)
  have "is_marker (p # a # g # e # ?ws @ ?ds)"
    unfolding is_marker_def list.case tw dw using ci ws ds dg by blast
  moreover have "is_space (s ! 4)"
    using ws by (cases t) (auto simp: s split: if_splits)
  ultimately show ?thesis
    using s' tk by simp
qed

lemma match_marker_extend:
  assumes "match_marker s = Some r"
  shows "match_marker (s @ b) \<noteq> None"
proof -
  from assms obtain p a g e t where s: "s = p # a # g # e # t"
    and ci: "ci_letter 0x0050 p" "ci_letter 0x0041 a" "ci_letter 0x0047 g" "ci_letter 0x0045 e"
    and ws: "takeWhile is_space t \<noteq> []"
    and ds: "takeWhile is_digit (dropWhile is_space t) \<noteq> []"
    by (rule match_marker_SomeD)
  let ?t1 = "dropWhile is_space t"
  from ds obtain y ys where t1: "?t1 = y # ys" and y: "is_digit y"
    by (cases ?t1) (auto split: if_splits)
  have "?t1 \<noteq> []" using t1 by simp
  then have "\<not> is_space (hd ?t1)" by (rule hd_dropWhile)
  then have nsp: "\<not> is_space y" using t1 by simp
  have "y \<in> set ?t1" using t1 by simp
  then have yin: "y \<in> set t" by (rule set_mp [OF set_dropWhileD [THEN subsetI], rotated]) 
  have tw: "takeWhile is_space (t @ b) = takeWhile is_space t"
    using yin nsp by (rule takeWhile_append1)
  have dw: "dropWhile is_space (t @ b) = ?t1 @ b"
    using yin nsp by (rule dropWhile_append1)
  have "takeWhile is_digit (?t1 @ b) \<noteq> []"
    using y by (simp add: t1)
  then show ?thesis
    using ci ws by (simp add: s match_marker_def tw dw del: takeWhile_eq_Nil_iff)
qed


lemma weave_split: "weave (split_marker acc s) (markers_of s) = acc @ s"
proof (induction acc s rule: split_marker.induct)
  case (1 acc)
  then show ?case by simp
next
  case (2 acc c cs)
  show ?case
  proof (cases "match_marker (c # cs)")
    case None
    with 2 show ?thesis by simp
  next
    case (Some r)
    from match_marker_split [OF Some]
    have "take (length (c # cs) - length r) (c # cs) @ r = c # cs" by simp
    with "2.IH"(2) [OF Some] Some show ?thesis by simp
  qed
qed

lemma length_split: "length (split_marker acc s) = Suc (length (markers_of s))"
proof (induction acc s rule: split_marker.induct)
  case (1 acc)
  then show ?case by simp
next
  case (2 acc c cs)
  then show ?case by (cases "match_marker (c # cs)") simp_all
qed

lemma is_marker_length: "is_marker m \<Longrightarrow> 4 < length m"
  by (cases m rule: list.exhaust; simp add: is_marker_def split: list.splits)
     (metis takeWhile.simps(1))

lemma markers_of_are_markers: "m \<in> set (markers_of s) \<Longrightarrow> is_marker m \<and> is_space (m ! 4)"
proof (induction s rule: markers_of.induct)
  case 1
  then show ?case by simp
next
  case (2 c cs)
  show ?case
  proof (cases "match_marker (c # cs)")
    case None
    with "2.IH"(1) "2.prems" show ?thesis by simp
  next
    case (Some r)
    let ?m = "take (length (c # cs) - length r) (c # cs)"
    from match_marker_split [OF Some]
    have m: "is_marker ?m" and sp: "is_space ((c # cs) ! 4)" by simp_all
    from m have "4 < length ?m"
      by (rule is_marker_length)
    then have "4 < length (c # cs) - length r"
      by simp
    then have "?m ! 4 = (c # cs) ! 4"
      by (rule nth_take)
    with "2.IH"(2) [OF Some] "2.prems" Some m sp show ?thesis by auto
  qed
qed

lemma has_marker_iff: "has_marker s \<longleftrightarrow> (\<exists>i<length s. match_marker (drop i s) \<noteq> None)"
proof (induction s)
  case Nil
  then show ?case by simp
next
  case (Cons c cs)
  have "(\<exists>i<length (c # cs). match_marker (drop i (c # cs)) \<noteq> None) \<longleftrightarrow>
        match_marker (c # cs) \<noteq> None \<or> (\<exists>j<length cs. match_marker (drop j cs) \<noteq> None)"
    by (auto simp: less_Suc_eq_0_disj)
  with Cons show ?case by simp
qed

lemma no_start_no_marker:
  assumes "\<forall>i<length acc. match_marker (drop i (acc @ s)) = None"
  shows "\<not> has_marker acc"
proof
  assume "has_marker acc"
  then obtain i where i: "i < length acc" and "match_marker (drop i acc) \<noteq> None"
    by (auto simp: has_marker_iff)
  then obtain r where "match_marker (drop i acc) = Some r" by auto
  then have "match_marker (drop i acc @ s) \<noteq> None" by (rule match_marker_extend)
  moreover have "drop i (acc @ s) = drop i acc @ s" using i by simp
  ultimately show False using assms i by simp
qed

lemma split_fragments_clean:
  "\<forall>i<length acc. match_marker (drop i (acc @ s)) = None \<Longrightarrow>
   f \<in> set (split_marker acc s) \<Longrightarrow> \<not> has_marker f"
proof (induction acc s rule: split_marker.induct)
  case (1 acc)
  then show ?case using no_start_no_marker [of acc "[]"] by simp
next
  case (2 acc c cs)
  show ?case
  proof (cases "match_marker (c # cs)")
    case None
    have "\<forall>i<length (acc @ [c]). match_marker (drop i ((acc @ [c]) @ cs)) = None"
    proof (intro allI impI)
      fix i assume "i < length (acc @ [c])"
      then consider "i < length acc" | "i = length acc" by fastforce
      then show "match_marker (drop i ((acc @ [c]) @ cs)) = None"
      proof cases
        case 1
        with "2.prems"(1) show ?thesis by simp
      next
        case 2
        with None show ?thesis by simp
      qed
    qed
    from "2.IH"(1) [OF None this] "2.prems"(2) None show ?thesis by simp
  next
    case (Some r)
    from "2.prems"(2) Some have "f = acc \<or> f \<in> set (split_marker [] r)" by simp
    then show ?thesis
    proof
      assume "f = acc"
      with no_start_no_marker [OF "2.prems"(1)] show ?thesis by simp
    next
      assume "f \<in> set (split_marker [] r)"
      with "2.IH"(2) [OF Some] show ?thesis by simp
    qed
  qed
qed

lemma has_marker_append_left: "has_marker t \<Longrightarrow> has_marker (a @ t)"
  by (induction a) auto

lemma has_marker_append_right: "has_marker t \<Longrightarrow> has_marker (t @ b)"
proof (induction t)
  case Nil
  then show ?case by simp
next
  case (Cons c cs)
  from Cons.prems have "match_marker (c # cs) \<noteq> None \<or> has_marker cs" by simp
  then show ?case
  proof
    assume "match_marker (c # cs) \<noteq> None"
    then obtain r where "match_marker (c # cs) = Some r" by auto
    then have "match_marker ((c # cs) @ b) \<noteq> None" by (rule match_marker_extend)
    then show ?thesis by simp
  next
    assume "has_marker cs"
    then have "has_marker (cs @ b)" by (rule Cons.IH)
    then show ?thesis by simp
  qed
qed

lemma trim_middle: "s = takeWhile is_space s @ trim s @ rev (takeWhile is_space (rev (dropWhile is_space s)))"
proof -
  let ?d = "dropWhile is_space s"
  have "rev (takeWhile is_space (rev ?d) @ dropWhile is_space (rev ?d)) = rev (rev ?d)"
    by (simp only: takeWhile_dropWhile_id)
  then have "?d = trim s @ rev (takeWhile is_space (rev ?d))"
    by (simp only: rev_append rev_rev_ident trim_def)
  then have "takeWhile is_space s @ ?d = takeWhile is_space s @ trim s @ rev (takeWhile is_space (rev ?d))"
    by simp
  then show ?thesis by (simp only: takeWhile_dropWhile_id)
qed

lemma has_marker_trim: "has_marker (trim s) \<Longrightarrow> has_marker s"
proof -
  assume "has_marker (trim s)"
  then have "has_marker (trim s @ rev (takeWhile is_space (rev (dropWhile is_space s))))"
    by (rule has_marker_append_right)
  then have "has_marker (takeWhile is_space s @ trim s @ rev (takeWhile is_space (rev (dropWhile is_space s))))"
    by (rule has_marker_append_left)
  then show ?thesis using trim_middle [of s] by simp
qed

lemma match_marker_rest: "match_marker s = Some r \<Longrightarrow> r = [] \<or> \<not> is_digit (hd r)"
proof -
  assume "match_marker s = Some r"
  then obtain t where r: "r = dropWhile is_digit t"
    by (auto elim: match_marker_SomeD)
  show ?thesis
  proof (cases "r = []")
    case True
    then show ?thesis by simp
  next
    case False
    then have "dropWhile is_digit t \<noteq> []" by (simp add: r)
    then have "\<not> is_digit (hd (dropWhile is_digit t))" by (rule hd_dropWhile)
    then show ?thesis by (simp add: r)
  qed
qed

lemma first_fragment: "\<exists>k. hd (split_marker acc s) = acc @ take k s"
proof (induction acc s rule: split_marker.induct)
  case (1 acc)
  then show ?case by simp
next
  case (2 acc c cs)
  show ?case
  proof (cases "match_marker (c # cs)")
    case None
    from "2.IH"(1) [OF None] obtain k where "hd (split_marker (acc @ [c]) cs) = (acc @ [c]) @ take k cs"
      by blast
    with None have "hd (split_marker acc (c # cs)) = acc @ take (Suc k) (c # cs)"
      by simp
    then show ?thesis by blast
  next
    case (Some r)
    then have "hd (split_marker acc (c # cs)) = acc @ take 0 (c # cs)"
      by simp
    then show ?thesis by blast
  qed
qed

lemma split_not_Nil: "split_marker acc s \<noteq> []"
  using length_split [of acc s] by auto

lemma after_marker_no_digit:
  "f \<in> set (tl (split_marker acc s)) \<Longrightarrow> f = [] \<or> \<not> is_digit (hd f)"
proof (induction acc s rule: split_marker.induct)
  case (1 acc)
  then show ?case by simp
next
  case (2 acc c cs)
  show ?case
  proof (cases "match_marker (c # cs)")
    case None
    with "2.IH"(1) [OF None] "2.prems" show ?thesis by simp
  next
    case (Some r)
    with "2.prems" have "f \<in> set (split_marker [] r)" by simp
    then have "f = hd (split_marker [] r) \<or> f \<in> set (tl (split_marker [] r))"
      using split_not_Nil [of "[]" r] by (cases "split_marker [] r") auto
    then show ?thesis
    proof
      assume f: "f = hd (split_marker [] r)"
      from first_fragment [of "[]" r] obtain k where k: "hd (split_marker [] r) = take k r"
        by auto
      show ?thesis
      proof (cases "f = []")
        case True
        then show ?thesis by simp
      next
        case False
        with f k have "hd f = hd r" and "r \<noteq> []"
          by (cases r; cases k; simp)+
        with match_marker_rest [OF Some] show ?thesis by simp
      qed
    next
      assume "f \<in> set (tl (split_marker [] r))"
      with "2.IH"(2) [OF Some] show ?thesis by simp
    qed
  qed
qed

lemma is_marker_matches: "is_marker m \<Longrightarrow> match_marker m \<noteq> None"
proof -
  assume "is_marker m"
  then obtain p a g e r where m: "m = p # a # g # e # r"
    and ci: "ci_letter 0x0050 p" "ci_letter 0x0041 a" "ci_letter 0x0047 g" "ci_letter 0x0045 e"
    and ws: "takeWhile is_space r \<noteq> []"
    and ds: "dropWhile is_space r \<noteq> []" "list_all is_digit (dropWhile is_space r)"
    by (auto simp: is_marker_def split: list.splits)
  from ds(2) have "takeWhile is_digit (dropWhile is_space r) = dropWhile is_space r"
    by (simp add: list_all_iff)
  with ds(1) have "takeWhile is_digit (dropWhile is_space r) \<noteq> []"
    by metis
  then show ?thesis
    unfolding m match_marker_def list.case using ci ws by simp
qed

lemma marker_inside: "is_marker m \<Longrightarrow> has_marker (a @ m @ b)"
proof -
  assume m: "is_marker m"
  then obtain r where "match_marker m = Some r"
    using is_marker_matches by blast
  then have x: "match_marker (m @ b) \<noteq> None"
    by (rule match_marker_extend)
  from m have "m \<noteq> []"
    by (auto simp: is_marker_def)
  then obtain c cs where "m @ b = c # cs"
    by (cases m) auto
  with x have "has_marker (m @ b)"
    by simp
  then show ?thesis
    by (rule has_marker_append_left)
qed

section \<open>The example story and runs on the example data\<close>

lemma story_pages:
  "newPages story = [\<lparr>id' = 1, content = js ''Once upon a time.''\<rparr>, \<lparr>id' = 2, content = js ''The end.''\<rparr>]"
  by code_simp

lemma story_markers: "markers_of story = [js ''Page 1'', js ''Page 2'']"
  by code_simp

lemma story12_split: "split_marker [] (js ''Page 12 Hello'') = [[], js '' Hello'']"
  by code_simp

text \<open>
  The two example states are states of a run: with Reset clicked while the second call is
  pending, the second call is made in \<open>busy_state\<close> and the third in
  \<open>stale_state\<close>. A rejection with \<^verbatim>\<open>undefined\<close> ends the run with no
  error set.
\<close>

lemma busy_state_reached:
  "call_state (calls (fst (generateAll service_ok [[], [Reset]]
      (initial_world, initial_state\<lparr>pages := three_pages\<rparr>))) ! 1) = busy_state"
  by (simp add: generateAll_def start_run_def run_pages_Cons mint_def during_simps after_Nil after_one showsReset_def showsGenerate_def
      initial_world_def initial_state_def three_pages_def service_ok_def newResult_def busy_state_def
      decimal.simps js_def)

lemma stale_state_reached:
  "call_state (calls (fst (generateAll service_ok [[], [Reset]]
      (initial_world, initial_state\<lparr>pages := three_pages\<rparr>))) ! 2) = stale_state"
  by (simp add: generateAll_def start_run_def run_pages_Cons mint_def during_simps after_Nil after_one showsReset_def showsGenerate_def
      initial_world_def initial_state_def three_pages_def service_ok_def newResult_def stale_state_def
      decimal.simps js_def)

lemma undefined_rejection_sets_no_error:
  "error (snd (generateAll service_undefined [] (initial_world, initial_state\<lparr>pages := three_pages\<rparr>))) = None
   \<and> \<not> isProcessing (snd (generateAll service_undefined [] (initial_world, initial_state\<lparr>pages := three_pages\<rparr>)))"
  by (simp add: generateAll_def start_run_def run_pages_Cons mint_def during_simps after_Nil catch_generate_def
      initial_world_def initial_state_def three_pages_def service_undefined_def)

section \<open>The claims\<close>

text \<open>
  C7. \<open>isComplete\<close> is true if and only if \<^verbatim>\<open>results.length == pages.length\<close>,
  \<^verbatim>\<open>pages.length > 0\<close> and the run flag \<^verbatim>\<open>isProcessing\<close> is false.
\<close>

theorem isComplete_iff:
  "isComplete s = (length (results s) = length (pages s) \<and> length (pages s) > 0 \<and> \<not> isProcessing s)"
  by (auto simp: isComplete_def)







text \<open>
  C10. A run started on a non-empty page list empties \<^verbatim>\<open>results\<close> and sets the
  progress to 0 of \<^verbatim>\<open>pages.length\<close> before its first synthesis call: that call is
  logged with exactly this state. From then on, whatever is clicked meanwhile, every clip
  in \<^verbatim>\<open>results\<close>, in the state at each call of the run and at its end, carries
  an object URL created during this run, so no clip of an earlier run is among them; and a
  run whose first call fails ends with \<^verbatim>\<open>results\<close> empty and the progress at 0
  of \<^verbatim>\<open>pages.length\<close>.
\<close>

theorem new_run_discards_results:
  assumes "pages s \<noteq> []" and "generateAll gen evs (w, s) = (w', s')"
  shows "length (calls w) < length (calls w')
     \<and> take (length (calls w)) (calls w') = calls w
     \<and> calls w' ! length (calls w) =
         \<lparr>call_text = content (hd (pages s)), call_config = config s,
          call_state = s\<lparr>isProcessing := True, results := [],
                          progress := \<lparr>current = 0, total' = length (pages s)\<rparr>\<rparr>\<rparr>
     \<and> (\<forall>c \<in> set (drop (length (calls w)) (calls w')).
           \<forall>r \<in> set (results (call_state c)). next_url w \<le> url r)
     \<and> (\<forall>r \<in> set (results s'). next_url w \<le> url r)
     \<and> ((\<forall>r \<in> set (results s). url r < next_url w) \<longrightarrow> set (results s') \<inter> set (results s) = {})
     \<and> ((\<exists>err. gen (length (calls w)) (content (hd (pages s))) (config s) = Inl err) \<longrightarrow>
           results s' = [] \<and> progress s' = \<lparr>current = 0, total' = length (pages s)\<rparr>)"
proof -
  let ?n = "length (calls w)" and ?u = "next_url w" and ?cfg = "config s"
  let ?cl = "clips gen ?cfg ?n ?u evs (pages s)"
  let ?log = "call_log gen ?cfg ?n ?u (start_run s) evs (pages s)"
  from assms(1) obtain p ps where pg: "pages s = p # ps"
    by (cases "pages s") auto
  have w': "w' = fst (generateAll gen evs (w, s))" and s': "s' = snd (generateAll gen evs (w, s))"
    using assms(2) by simp_all
  have sub: "set (results s') \<subseteq> set ?cl"
    by (simp add: s' generateAll_results_subset [OF assms(1)])
  have calls: "calls w' = calls w @ ?log"
    by (simp add: w' generateAll_calls [OF assms(1)])
  have log0: "?log \<noteq> []" "?log ! 0 = \<lparr>call_text = content p, call_config = ?cfg, call_state = start_run s\<rparr>"
    by (simp_all add: pg)
  have 1: "length (calls w) < length (calls w')"
    using log0(1) by (simp add: calls)
  have 2: "take (length (calls w)) (calls w') = calls w"
    by (simp add: calls)
  have 3: "calls w' ! length (calls w) =
         \<lparr>call_text = content (hd (pages s)), call_config = config s,
          call_state = s\<lparr>isProcessing := True, results := [],
                          progress := \<lparr>current = 0, total' = length (pages s)\<rparr>\<rparr>\<rparr>"
    using log0(2) by (simp add: calls nth_append pg start_run_def)
  have 4: "\<forall>c \<in> set (drop (length (calls w)) (calls w')).
           \<forall>r \<in> set (results (call_state c)). next_url w \<le> url r"
  proof (intro ballI)
    fix c r assume "c \<in> set (drop (length (calls w)) (calls w'))" and r: "r \<in> set (results (call_state c))"
    then have "c \<in> set ?log" by (simp add: calls)
    from call_log_results [OF this] have "set (results (call_state c)) \<subseteq> set ?cl"
      by (simp add: start_run_def)
    with r have "r \<in> set ?cl" by blast
    then show "next_url w \<le> url r" by (rule clips_url_fresh)
  qed
  have 5: "\<forall>r \<in> set (results s'). next_url w \<le> url r"
    using sub clips_url_fresh [of _ gen ?cfg ?n ?u evs "pages s"] by blast
  have 6: "(\<forall>r \<in> set (results s). url r < next_url w) \<longrightarrow> set (results s') \<inter> set (results s) = {}"
    using 5 by fastforce
  have 7: "(\<exists>err. gen (length (calls w)) (content (hd (pages s))) (config s) = Inl err) \<longrightarrow>
           results s' = [] \<and> progress s' = \<lparr>current = 0, total' = length (pages s)\<rparr>"
  proof
    assume "\<exists>err. gen (length (calls w)) (content (hd (pages s))) (config s) = Inl err"
    then obtain err where err: "gen ?n (content p) ?cfg = Inl err"
      by (auto simp: pg)
    then have "?cl = []" by (simp add: pg)
    with sub have a: "results s' = []" by simp
    have out: "outcome gen ?cfg ?n (pages s) = Some err"
      using err by (simp add: pg)
    have "progress s' = progress (after (during evs) (start_run s))"
      using err by (simp add: s' generateAll_state [OF assms(1)] out catch_generate_fields)
         (simp add: pg run_pages_Cons)
    moreover have "progress (after (during evs) (start_run s)) = progress (start_run s)"
      by (rule after_no_results [THEN conjunct1]) (simp_all add: start_run_def)
    ultimately have b: "progress s' = \<lparr>current = 0, total' = length (pages s)\<rparr>"
      by (simp add: start_run_def)
    from a b show "results s' = [] \<and> progress s' = \<lparr>current = 0, total' = length (pages s)\<rparr>"
      by blast
  qed
  from 1 2 3 4 5 6 7 show ?thesis by blast
qed

theorem new_run_discards_results_witness:
  "results busy_state \<noteq> []
   \<and> results (call_state (calls (fst (generateAll service_down [[Reset]] (busy_world, busy_state))) ! 1)) = []
   \<and> progress (call_state (calls (fst (generateAll service_down [[Reset]] (busy_world, busy_state))) ! 1))
       = \<lparr>current = 0, total' = 3\<rparr>
   \<and> results (snd (generateAll service_down [[Reset]] (busy_world, busy_state))) = []
   \<and> progress (snd (generateAll service_down [[Reset]] (busy_world, busy_state))) = \<lparr>current = 0, total' = 3\<rparr>"
proof -
  let ?R = "generateAll service_down [[Reset]] (busy_world, busy_state)"
  have h1: "pages busy_state \<noteq> []"
    by (simp add: busy_state_def three_pages_def)
  have h2: "?R = (fst ?R, snd ?R)"
    by simp
  note t = new_run_discards_results [OF h1 h2]
  from t have "calls (fst ?R) ! length (calls busy_world) =
         \<lparr>call_text = content (hd (pages busy_state)), call_config = config busy_state,
          call_state = busy_state\<lparr>isProcessing := True, results := [],
                          progress := \<lparr>current = 0, total' = length (pages busy_state)\<rparr>\<rparr>\<rparr>"
    by blast
  then have "call_state (calls (fst ?R) ! 1) =
          busy_state\<lparr>isProcessing := True, results := [],
                          progress := \<lparr>current = 0, total' = 3\<rparr>\<rparr>"
    by (simp add: busy_world_def busy_state_def three_pages_def)
  then have a: "results (call_state (calls (fst ?R) ! 1)) = []
      \<and> progress (call_state (calls (fst ?R) ! 1)) = \<lparr>current = 0, total' = 3\<rparr>"
    by simp
  have f: "\<exists>err. service_down (length (calls busy_world)) (content (hd (pages busy_state))) (config busy_state) = Inl err"
    by (simp add: service_down_def)
  from t f have b: "results (snd ?R) = []"
    by blast
  from t f have "progress (snd ?R) = \<lparr>current = 0, total' = length (pages busy_state)\<rparr>"
    by blast
  then have d: "progress (snd ?R) = \<lparr>current = 0, total' = 3\<rparr>"
    by (simp add: busy_state_def three_pages_def)
  have c: "results busy_state \<noteq> []"
    by (simp add: busy_state_def)
  from a b c d show ?thesis by blast
qed

text \<open>
  C5, as the code has it. \<open>generateAll\<close> does not read \<^verbatim>\<open>isProcessing\<close> and
  rejects nothing: on a non-empty page list a call made while a run is in progress does
  exactly what a call made while idle does, it calls the service and ends with
  \<^verbatim>\<open>isProcessing\<close> false. Only a call on an empty page list changes nothing.
  What keeps a second run from starting is the rendering: the button is not shown while
  \<^verbatim>\<open>isProcessing\<close> is true.
\<close>

theorem generateAll_has_no_running_guard:
  "(pages s \<noteq> [] \<longrightarrow>
      generateAll gen evs (w, s\<lparr>isProcessing := True\<rparr>) = generateAll gen evs (w, s\<lparr>isProcessing := False\<rparr>)
      \<and> length (calls w) < length (calls (fst (generateAll gen evs (w, s\<lparr>isProcessing := True\<rparr>))))
      \<and> \<not> isProcessing (snd (generateAll gen evs (w, s\<lparr>isProcessing := True\<rparr>))))
   \<and> (pages s = [] \<longrightarrow> generateAll gen evs (w, s) = (w, s))
   \<and> (isProcessing s \<longrightarrow> \<not> showsGenerate s)"
proof -
  have "start_run (s\<lparr>isProcessing := True\<rparr>) = start_run (s\<lparr>isProcessing := False\<rparr>)"
    by (simp add: start_run_def)
  then have 1: "generateAll gen evs (w, s\<lparr>isProcessing := True\<rparr>) = generateAll gen evs (w, s\<lparr>isProcessing := False\<rparr>)"
    if "pages s \<noteq> []"
    using that by (simp add: generateAll_def)
  have 2: "length (calls w) < length (calls (fst (generateAll gen evs (w, s\<lparr>isProcessing := True\<rparr>))))"
    if "pages s \<noteq> []"
  proof -
    from that obtain p ps where "pages s = p # ps" by (cases "pages s") auto
    then have "call_log gen (config s) (length (calls w)) (next_url w) (start_run (s\<lparr>isProcessing := True\<rparr>)) evs (pages s) \<noteq> []"
      by simp
    with that show ?thesis
      using generateAll_calls [of "s\<lparr>isProcessing := True\<rparr>" gen evs w] by simp
  qed
  have 3: "\<not> isProcessing (snd (generateAll gen evs (w, s\<lparr>isProcessing := True\<rparr>)))" if "pages s \<noteq> []"
    using that generateAll_isProcessing [of "s\<lparr>isProcessing := True\<rparr>" gen evs w] by simp
  have 4: "pages s = [] \<longrightarrow> generateAll gen evs (w, s) = (w, s)"
    by (simp add: generateAll_empty)
  have 5: "isProcessing s \<longrightarrow> \<not> showsGenerate s"
    by (simp add: showsGenerate_def)
  from 1 2 3 4 5 show ?thesis by blast
qed

theorem generateAll_has_no_running_guard_witness:
  "generateAll service_ok [] (busy_world, busy_state\<lparr>isProcessing := True\<rparr>)
     = generateAll service_ok [] (busy_world, busy_state\<lparr>isProcessing := False\<rparr>)
   \<and> length (calls busy_world) < length (calls (fst (generateAll service_ok [] (busy_world, busy_state\<lparr>isProcessing := True\<rparr>))))
   \<and> generateAll service_ok [] (initial_world, initial_state) = (initial_world, initial_state)"
proof -
  have h1: "pages busy_state \<noteq> []"
    by (simp add: busy_state_def three_pages_def)
  have h2: "pages initial_state = []"
    by (simp add: initial_state_def)
  from generateAll_has_no_running_guard [of busy_state service_ok "[]" busy_world] h1
  have "generateAll service_ok [] (busy_world, busy_state\<lparr>isProcessing := True\<rparr>)
     = generateAll service_ok [] (busy_world, busy_state\<lparr>isProcessing := False\<rparr>)
   \<and> length (calls busy_world) < length (calls (fst (generateAll service_ok [] (busy_world, busy_state\<lparr>isProcessing := True\<rparr>))))"
    by blast
  moreover from generateAll_has_no_running_guard [of initial_state service_ok "[]" initial_world] h2
  have "generateAll service_ok [] (initial_world, initial_state) = (initial_world, initial_state)"
    by blast
  ultimately show ?thesis by blast
qed

text \<open>
  Against C5 as stated: called in the middle of a run, \<open>generateAll\<close> empties
  \<^verbatim>\<open>results\<close> and resets the progress before its first call, makes three more
  synthesis calls and leaves three new clips.
\<close>

theorem generate_while_running_counterexample:
  "isProcessing busy_state
   \<and> map url (results busy_state) = [0]
   \<and> progress busy_state = \<lparr>current = 1, total' = 3\<rparr>
   \<and> results (call_state (calls (fst (generateAll service_ok [] (busy_world, busy_state))) ! 1)) = []
   \<and> progress (call_state (calls (fst (generateAll service_ok [] (busy_world, busy_state))) ! 1))
        = \<lparr>current = 0, total' = 3\<rparr>
   \<and> map url (results (snd (generateAll service_ok [] (busy_world, busy_state)))) = [1, 2, 3]
   \<and> length (calls (fst (generateAll service_ok [] (busy_world, busy_state)))) = 4"
  by (simp add: generateAll_def start_run_def run_pages_Cons mint_def during_simps after_Nil
      busy_world_def busy_state_def initial_state_def three_pages_def service_ok_def newResult_def)

text \<open>
  C8, as the code has it. No object URL is ever revoked. After a run, whatever was clicked
  meanwhile, the URL of every clip in \<^verbatim>\<open>results\<close> is live, and every URL that
  was live before still is; \<^verbatim>\<open>reset\<close> and a file load empty
  \<^verbatim>\<open>results\<close> and leave the live URLs as they are.
\<close>

theorem object_urls_never_revoked:
  assumes "pages s \<noteq> []" and "generateAll gen evs (w, s) = (w1, s1)"
  shows "url ` set (results s1) \<subseteq> set (live w1)
     \<and> set (live w) \<subseteq> set (live w1)
     \<and> live (fst (reset (w1, s1))) = live w1
     \<and> results (snd (reset (w1, s1))) = []
     \<and> live (fst (parseFile f (w1, s1))) = live w1
     \<and> (file_text f \<noteq> None \<longrightarrow> results (snd (parseFile f (w1, s1))) = [])"
proof -
  have w1: "w1 = fst (generateAll gen evs (w, s))" and s1: "s1 = snd (generateAll gen evs (w, s))"
    using assms(2) by simp_all
  have r: "set (results s1) \<subseteq> set (clips gen (config s) (length (calls w)) (next_url w) evs (pages s))"
    by (simp add: s1 generateAll_results_subset [OF assms(1)])
  have 1: "url ` set (results s1) \<subseteq> set (live w1)"
    using r generateAll_clips_live [OF assms(1), of gen w evs] by (auto simp: w1)
  have 2: "set (live w) \<subseteq> set (live w1)"
    using generateAll_live_grows [of w gen evs s] by (simp add: w1)
  have 3: "live (fst (reset (w1, s1))) = live w1" and 4: "results (snd (reset (w1, s1))) = []"
    by (simp_all add: reset_def)
  have 5: "live (fst (parseFile f (w1, s1))) = live w1"
    by (simp add: parseFile_def split: option.splits)
  have 6: "file_text f \<noteq> None \<longrightarrow> results (snd (parseFile f (w1, s1))) = []"
    by (auto simp: parseFile_def split: option.splits)
  from 1 2 3 4 5 6 show ?thesis by blast
qed

theorem object_urls_never_revoked_witness:
  "results (snd (reset (generateAll service_ok [] (initial_world, initial_state\<lparr>pages := three_pages\<rparr>)))) = []
   \<and> live (fst (reset (generateAll service_ok [] (initial_world, initial_state\<lparr>pages := three_pages\<rparr>))))
       = live (fst (generateAll service_ok [] (initial_world, initial_state\<lparr>pages := three_pages\<rparr>)))
   \<and> results (snd (parseFile (File (js ''b.txt'') (Some story))
        (generateAll service_ok [] (initial_world, initial_state\<lparr>pages := three_pages\<rparr>)))) = []"
proof -
  let ?s = "initial_state\<lparr>pages := three_pages\<rparr>"
  let ?f = "File (js ''b.txt'') (Some story)"
  have h1: "pages ?s \<noteq> []"
    by (simp add: three_pages_def)
  have h2: "generateAll service_ok [] (initial_world, ?s) =
              (fst (generateAll service_ok [] (initial_world, ?s)),
               snd (generateAll service_ok [] (initial_world, ?s)))"
    by simp
  have h3: "file_text ?f \<noteq> None"
    by simp
  from object_urls_never_revoked [OF h1 h2, of ?f] h3 show ?thesis
    by simp
qed

text \<open>
  Against C8 as stated: after a run over three pages and then a reset, or a new file, the
  three object URLs of the run are still live and no clip refers to them.
\<close>

theorem urls_released_counterexample:
  "results (snd (reset (generateAll service_ok [] (initial_world, initial_state\<lparr>pages := three_pages\<rparr>)))) = []
   \<and> live (fst (reset (generateAll service_ok [] (initial_world, initial_state\<lparr>pages := three_pages\<rparr>)))) = [0, 1, 2]
   \<and> results (snd (parseFile (File (js ''b.txt'') (Some story))
        (generateAll service_ok [] (initial_world, initial_state\<lparr>pages := three_pages\<rparr>)))) = []
   \<and> live (fst (parseFile (File (js ''b.txt'') (Some story))
        (generateAll service_ok [] (initial_world, initial_state\<lparr>pages := three_pages\<rparr>)))) = [0, 1, 2]"
  by (simp add: generateAll_def start_run_def run_pages_Cons mint_def during_simps after_Nil
      initial_world_def initial_state_def three_pages_def
      service_ok_def newResult_def reset_def parseFile_def)

text \<open>
  C4. For every input text, the pages of the segmentation are numbered 1 to \<open>n\<close> in
  order, and the content of each is the trimmed text of a fragment that is not blank: it
  is not empty, not made of white space only, and trimming it again changes nothing.
\<close>

theorem pages_trimmed_and_numbered:
  "map id' (newPages text) = [1 ..< Suc (length (newPages text))]
   \<and> map content (newPages text) = map trim (filter (\<lambda>p. trim p \<noteq> []) (split_marker [] text))
   \<and> (\<forall>page \<in> set (newPages text).
         content page \<noteq> [] \<and> \<not> list_all is_space (content page) \<and> trim (content page) = content page)"
proof -
  have c: "map content (newPages text) = map trim (filter (\<lambda>p. trim p \<noteq> []) (split_marker [] text))"
    by (simp add: newPages_content parts_def)
  have "\<forall>t \<in> set (map content (newPages text)). t \<noteq> [] \<and> \<not> list_all is_space t \<and> trim t = t"
    unfolding c using trim_not_blank trim_idem by auto
  then have "\<forall>page \<in> set (newPages text).
         content page \<noteq> [] \<and> \<not> list_all is_space (content page) \<and> trim (content page) = content page"
    by simp
  with newPages_ids c show ?thesis by blast
qed

theorem pages_trimmed_and_numbered_witness:
  "map id' (newPages story) = [1, 2]
   \<and> content (newPages story ! 1) \<noteq> []
   \<and> \<not> list_all is_space (content (newPages story ! 1))
   \<and> trim (content (newPages story ! 1)) = content (newPages story ! 1)"
proof -
  note t = pages_trimmed_and_numbered [of story]
  have m: "newPages story ! 1 \<in> set (newPages story)"
    by (simp add: story_pages)
  from t have "map id' (newPages story) = [1 ..< Suc (length (newPages story))]"
    by blast
  then have "map id' (newPages story) = [1, 2]"
    by (simp add: story_pages upt_rec)
  moreover from t m have "content (newPages story ! 1) \<noteq> []
     \<and> \<not> list_all is_space (content (newPages story ! 1))
     \<and> trim (content (newPages story ! 1)) = content (newPages story ! 1)"
    by blast
  ultimately show ?thesis by blast
qed

text \<open>
  C3, as the code has it. The text is split at the matches of
  \<^verbatim>\<open>/Page\s+\d+/i\<close>: the word in either case, then at least one white-space
  character, then at least one digit. The text is the fragments with the removed markers
  between them; each removed marker is such a match, with white space right after the
  word, and it takes all the digits there are: no fragment after a marker begins with a
  digit. No fragment, and so no page content, contains a match.
\<close>

theorem split_at_spaced_markers:
  "weave (split_marker [] text) (markers_of text) = text
   \<and> length (split_marker [] text) = Suc (length (markers_of text))
   \<and> (\<forall>m \<in> set (markers_of text). is_marker m \<and> is_space (m ! 4))
   \<and> (\<forall>f \<in> set (tl (split_marker [] text)). f = [] \<or> \<not> is_digit (hd f))
   \<and> (\<forall>f \<in> set (split_marker [] text). \<not> has_marker f)
   \<and> (\<forall>f \<in> set (split_marker [] text). \<forall>a m b. f = a @ m @ b \<longrightarrow> \<not> is_marker m)
   \<and> (\<forall>page \<in> set (newPages text). \<not> has_marker (content page))
   \<and> (\<forall>page \<in> set (newPages text). \<forall>a m b. content page = a @ m @ b \<longrightarrow> \<not> is_marker m)"
proof -
  have 1: "weave (split_marker [] text) (markers_of text) = text"
    using weave_split [of "[]" "text"] by simp
  have 2: "length (split_marker [] text) = Suc (length (markers_of text))"
    by (rule length_split)
  have 3: "\<forall>m \<in> set (markers_of text). is_marker m \<and> is_space (m ! 4)"
    using markers_of_are_markers by blast
  have 4: "\<forall>f \<in> set (tl (split_marker [] text)). f = [] \<or> \<not> is_digit (hd f)"
    using after_marker_no_digit by blast
  have 5: "\<forall>f \<in> set (split_marker [] text). \<not> has_marker f"
    using split_fragments_clean [of "[]" "text"] by simp
  have 6: "\<forall>f \<in> set (split_marker [] text). \<forall>a m b. f = a @ m @ b \<longrightarrow> \<not> is_marker m"
    using 5 marker_inside by blast
  have 7: "\<forall>page \<in> set (newPages text). \<not> has_marker (content page)"
  proof
    fix page assume "page \<in> set (newPages text)"
    then have "content page \<in> set (map content (newPages text))" by simp
    then obtain f where f: "f \<in> set (parts text)" and c: "content page = trim f"
      by (auto simp: newPages_content)
    from f have "f \<in> set (split_marker [] text)" by (simp add: parts_def)
    with 5 have "\<not> has_marker f" by blast
    then show "\<not> has_marker (content page)"
      using has_marker_trim [of f] by (auto simp: c)
  qed
  have 8: "\<forall>page \<in> set (newPages text). \<forall>a m b. content page = a @ m @ b \<longrightarrow> \<not> is_marker m"
  proof (intro ballI allI impI)
    fix page a m b assume page: "page \<in> set (newPages text)" and c: "content page = a @ m @ b"
    show "\<not> is_marker m"
    proof
      assume "is_marker m"
      then have "has_marker (a @ m @ b)" by (rule marker_inside)
      then have "has_marker (content page)" by (simp add: c)
      with 7 page show False by blast
    qed
  qed
  from 1 2 3 4 5 6 7 8 show ?thesis by blast
qed

theorem split_at_spaced_markers_witness:
  "weave (split_marker [] story) (markers_of story) = story
   \<and> is_marker (js ''Page 2'')
   \<and> \<not> has_marker (js ''The end.'')
   \<and> \<not> is_digit (hd (split_marker [] (js ''Page 12 Hello'') ! 1))"
proof -
  note t = split_at_spaced_markers [of story]
  note t12 = split_at_spaced_markers [of "js ''Page 12 Hello''"]
  have m: "js ''Page 2'' \<in> set (markers_of story)"
    by (simp add: story_markers)
  have p: "\<lparr>id' = 2, content = js ''The end.''\<rparr> \<in> set (newPages story)"
    by (simp add: story_pages)
  have a: "weave (split_marker [] story) (markers_of story) = story"
    by (rule t [THEN conjunct1])
  have "\<forall>m \<in> set (markers_of story). is_marker m \<and> is_space (m ! 4)"
    by (rule t [THEN conjunct2, THEN conjunct2, THEN conjunct1])
  with m have b: "is_marker (js ''Page 2'')"
    by blast
  have "\<forall>page \<in> set (newPages story). \<not> has_marker (content page)"
    by (rule t [THEN conjunct2, THEN conjunct2, THEN conjunct2, THEN conjunct2, THEN conjunct2,
          THEN conjunct2, THEN conjunct1])
  with p have "\<not> has_marker (content \<lparr>id' = 2, content = js ''The end.''\<rparr>)"
    by blast
  then have c: "\<not> has_marker (js ''The end.'')"
    by simp
  have f: "split_marker [] (js ''Page 12 Hello'') ! 1 \<in> set (tl (split_marker [] (js ''Page 12 Hello'')))"
    by (simp add: story12_split)
  have "split_marker [] (js ''Page 12 Hello'') ! 1 = js '' Hello''"
    by (simp add: story12_split)
  then have n: "split_marker [] (js ''Page 12 Hello'') ! 1 \<noteq> []"
    by (simp add: js_def)
  have "\<forall>f \<in> set (tl (split_marker [] (js ''Page 12 Hello''))). f = [] \<or> \<not> is_digit (hd f)"
    by (rule t12 [THEN conjunct2, THEN conjunct2, THEN conjunct2, THEN conjunct1])
  with f n have d: "\<not> is_digit (hd (split_marker [] (js ''Page 12 Hello'') ! 1))"
    by blast
  from a b c d show ?thesis by blast
qed

text \<open>
  Against C3 as stated: in \<^verbatim>\<open>"a page7 b"\<close> the digits follow the word directly;
  the text is not split there and the one page keeps \<^verbatim>\<open>page7\<close> in its content.
\<close>

theorem unspaced_marker_counterexample:
  "split_marker [] (js ''a page7 b'') = [js ''a page7 b'']
   \<and> map content (newPages (js ''a page7 b'')) = [js ''a page7 b'']"
  by (simp add: newPages_def parts_def js_def match_marker_def ci_letter_def is_space_def is_digit_def trim_def)

text \<open>
  C9, as the code has it. With no page, \<open>previewSample\<close> calls nothing and changes
  nothing. With pages it calls the service exactly once, with the first 100 code units of
  the first page's content at most; when the call succeeds the component's state is
  unchanged; when it fails \<^verbatim>\<open>error\<close> becomes \<^verbatim>\<open>"Failed to preview audio."\<close>
  and nothing else changes.
\<close>

theorem preview_effect:
  "(pages s = [] \<longrightarrow> previewSample gen (w, s) = (w, s))
   \<and> (pages s \<noteq> [] \<longrightarrow>
        calls (fst (previewSample gen (w, s))) =
          calls w @ [\<lparr>call_text = take 100 (content (hd (pages s))), call_config = config s, call_state = s\<rparr>]
        \<and> length (take 100 (content (hd (pages s)))) \<le> 100
        \<and> ((\<exists>b. gen (length (calls w)) (take 100 (content (hd (pages s)))) (config s) = Inr b) \<longrightarrow>
              snd (previewSample gen (w, s)) = s)
        \<and> ((\<exists>e. gen (length (calls w)) (take 100 (content (hd (pages s)))) (config s) = Inl e) \<longrightarrow>
              snd (previewSample gen (w, s)) = s\<lparr>error := Some (js ''Failed to preview audio.'')\<rparr>))"
proof (cases "pages s")
  case Nil
  then show ?thesis by (simp add: previewSample_def)
next
  case (Cons p ps)
  show ?thesis
  proof (cases "gen (length (calls w)) (take 100 (content p)) (config s)")
    case (Inl e)
    with Cons show ?thesis
      by (simp add: previewSample_def generateSpeech_def)
  next
    case (Inr b)
    with Cons show ?thesis
      by (simp add: previewSample_def generateSpeech_def createObjectURL_def play_def)
  qed
qed

theorem preview_effect_witness:
  "previewSample service_ok (initial_world, initial_state) = (initial_world, initial_state)
   \<and> snd (previewSample service_ok (initial_world, initial_state\<lparr>pages := three_pages\<rparr>))
        = initial_state\<lparr>pages := three_pages\<rparr>
   \<and> snd (previewSample service_down (initial_world, initial_state\<lparr>pages := three_pages\<rparr>))
        = initial_state\<lparr>pages := three_pages, error := Some (js ''Failed to preview audio.'')\<rparr>
   \<and> length (calls (fst (previewSample service_down (initial_world, initial_state\<lparr>pages := three_pages\<rparr>)))) = 1"
proof -
  let ?s = "initial_state\<lparr>pages := three_pages\<rparr>"
  have h0: "pages initial_state = []"
    by (simp add: initial_state_def)
  have h1: "pages ?s \<noteq> []"
    by (simp add: three_pages_def)
  have ok: "\<exists>b. service_ok (length (calls initial_world)) (take 100 (content (hd (pages ?s)))) (config ?s) = Inr b"
    by (simp add: service_ok_def)
  have down: "\<exists>e. service_down (length (calls initial_world)) (take 100 (content (hd (pages ?s)))) (config ?s) = Inl e"
    by (simp add: service_down_def)
  from preview_effect [of initial_state service_ok initial_world] h0
  have a: "previewSample service_ok (initial_world, initial_state) = (initial_world, initial_state)"
    by blast
  from preview_effect [of ?s service_ok initial_world] h1 ok
  have b: "snd (previewSample service_ok (initial_world, ?s)) = ?s"
    by blast
  from preview_effect [of ?s service_down initial_world] h1 down
  have c: "snd (previewSample service_down (initial_world, ?s)) = ?s\<lparr>error := Some (js ''Failed to preview audio.'')\<rparr>"
    and d: "calls (fst (previewSample service_down (initial_world, ?s))) =
          calls initial_world @ [\<lparr>call_text = take 100 (content (hd (pages ?s))), call_config = config ?s, call_state = ?s\<rparr>]"
    by blast+
  from d have "length (calls (fst (previewSample service_down (initial_world, ?s)))) = 1"
    by (simp add: initial_world_def)
  with a b c show ?thesis by simp
qed

text \<open>
  Against C9 as stated: a failed preview sets \<^verbatim>\<open>error\<close>, and a preview with no
  page makes no call.
\<close>

theorem preview_counterexample:
  "error (initial_state\<lparr>pages := three_pages\<rparr>) = None
   \<and> error (snd (previewSample service_down (initial_world, initial_state\<lparr>pages := three_pages\<rparr>)))
        = Some (js ''Failed to preview audio.'')
   \<and> calls (fst (previewSample service_ok (initial_world, initial_state))) = []"
  by (simp add: previewSample_def generateSpeech_def service_down_def initial_state_def initial_world_def
      three_pages_def)

text \<open>
  C6. \<^verbatim>\<open>reset\<close> clears the pages, the results, the progress and the error. A file
  load replaces the pages and clears the results and the error, but has no
  \<^verbatim>\<open>setProgress\<close>: loaded in a state whose progress is 1 of 0, the new file
  leaves the progress at 1 of 0, where \<^verbatim>\<open>reset\<close> gives 0 of 0.
\<close>

theorem load_keeps_stale_progress:
  "progress stale_state = \<lparr>current = 1, total' = 0\<rparr>
   \<and> progress (snd (parseFile (File (js ''b.txt'') (Some story)) (stale_world, stale_state)))
        = \<lparr>current = 1, total' = 0\<rparr>
   \<and> results (snd (parseFile (File (js ''b.txt'') (Some story)) (stale_world, stale_state))) = []
   \<and> error (snd (parseFile (File (js ''b.txt'') (Some story)) (stale_world, stale_state))) = None
   \<and> map id' (pages (snd (parseFile (File (js ''b.txt'') (Some story)) (stale_world, stale_state)))) = [1, 2]
   \<and> progress (snd (reset (stale_world, stale_state))) = \<lparr>current = 0, total' = 0\<rparr>"
  by (simp add: parseFile_def reset_def stale_state_def initial_state_def story_pages)

end
